theory Spec2Isabelle
  imports Main "HOL-Library.Word"
begin

section \<open>The dynamic array \<open>vector_t\<close> (hw06-vector-h3ic/vector.h)\<close>

subsection \<open>Data model\<close>

text \<open>
  \<open>size_t\<close> is a 64-bit unsigned integer. A pointer \<open>T *\<close> is either \<open>nullptr\<close>
  (\<open>None\<close>) or the address of a buffer obtained from \<open>new T[n]\<close>. The free store is
  a list of buffers, the address of a buffer being its position in the list; an entry
  is \<open>None\<close> once the buffer has been released. The class keeps three members,
  \<open>capacity_\<close>, \<open>arr_\<close> and \<open>pos_\<close>; a name cannot end in an underscore here, so
  they are written \<open>m_capacity\<close>, \<open>m_arr\<close> and \<open>m_pos\<close>.
\<close>

type_synonym size_t = "64 word"
type_synonym addr = nat
type_synonym 'a heap = "'a list option list"

record vector_t =
  m_capacity :: size_t
  m_arr :: "addr option"
  m_pos :: size_t

datatype error =
    SignedOverflow
  | NullDereference
  | InvalidPointer
  | OutOfBounds
  | NoSuchObject

definition INT_MAX :: int where
  "INT_MAX = 2147483647"

definition INT_MIN :: int where
  "INT_MIN = - 2147483648"

subsection \<open>Constructors\<close>

text \<open>\<open>vector_t() = default\<close>: the default member initialisers.\<close>

definition vector_default :: vector_t where
  "vector_default = \<lparr>m_capacity = 0, m_arr = None, m_pos = 0\<rparr>"

text \<open>
  \<open>new T[n]\<close>: a fresh buffer of \<open>n\<close> default-initialised elements. \<open>d\<close> is the
  value such an element holds: \<open>T()\<close> for a class type such as \<open>std::string\<close>, and
  an arbitrary value for a scalar type, which \<open>new\<close> leaves uninitialised. Allocation
  itself never fails in this model.
\<close>

definition new_array :: "'a \<Rightarrow> 'a heap \<Rightarrow> size_t \<Rightarrow> 'a heap \<times> addr" where
  "new_array d h n = (h @ [Some (replicate (unat n) d)], length h)"

text \<open>
  The loop \<open>int power = 1; while (power < elem_num) power *= 2;\<close>. The comparison
  converts the \<open>int\<close> to \<open>size_t\<close>; the multiplication is done on \<open>int\<close>, where
  leaving the range of the type is undefined behaviour, reported as
  \<open>SignedOverflow\<close>. The variable \<open>power\<close> is written \<open>pw\<close>. The loop is not structurally recursive (it would spin on
  \<open>power = 0\<close>), so not returning is the value \<open>None\<close>.
\<close>

partial_function (option) power_loop :: "int \<Rightarrow> size_t \<Rightarrow> (error + int) option" where
  "power_loop pw elem_num =
     (if (word_of_int pw :: size_t) < elem_num
      then (if pw * 2 < INT_MIN \<or> INT_MAX < pw * 2 then Some (Inl SignedOverflow)
            else power_loop (pw * 2) elem_num)
      else Some (Inr pw))"

declare power_loop.simps [code]

text \<open>
  \<open>explicit vector_t(size_t elem_num, const T & = T())\<close>. The second parameter has
  no name in the source and is never used; it is kept as the argument \<open>value\<close>.
\<close>

definition vector_sized ::
  "'a \<Rightarrow> size_t \<Rightarrow> 'a \<Rightarrow> 'a heap \<Rightarrow> (error + 'a heap \<times> vector_t) option" where
  "vector_sized d elem_num value h =
     (if elem_num = 0 then Some (Inr (h, \<lparr>m_capacity = 0, m_arr = None, m_pos = 0\<rparr>))
      else case power_loop 1 elem_num of
             None \<Rightarrow> None
           | Some (Inl e) \<Rightarrow> Some (Inl e)
           | Some (Inr pw) \<Rightarrow>
               (let capacity = (word_of_int pw :: size_t);
                    (h', p) = new_array d h capacity
                in Some (Inr (h', \<lparr>m_capacity = capacity, m_arr = Some p, m_pos = 0\<rparr>))))"

text \<open>
  \<open>vector_t(const vector_t &other) : pos_{other.pos_} {}\<close>: the other two members
  take their default member initialisers.
\<close>

definition vector_copy :: "vector_t \<Rightarrow> vector_t" where
  "vector_copy other = \<lparr>m_capacity = 0, m_arr = None, m_pos = m_pos other\<rparr>"

subsection \<open>swap and copy assignment\<close>

text \<open>\<open>std::swap(pos_, other.pos_)\<close> on the pair (\<open>*this\<close>, \<open>other\<close>).\<close>

definition swap_pos :: "vector_t \<times> vector_t \<Rightarrow> vector_t \<times> vector_t" where
  "swap_pos p = (case p of (this, other) \<Rightarrow>
     (this\<lparr>m_pos := m_pos other\<rparr>, other\<lparr>m_pos := m_pos this\<rparr>))"

text \<open>The body of \<open>swap\<close> is that statement three times.\<close>

definition vector_swap :: "vector_t \<Rightarrow> vector_t \<Rightarrow> vector_t \<times> vector_t" where
  "vector_swap this other = swap_pos (swap_pos (swap_pos (this, other)))"

text \<open>
  \<open>operator=\<close>: \<open>vector_t tmp(other); swap(tmp); return *this;\<close>. The copy is taken
  before \<open>*this\<close> changes, so the value of \<open>other\<close> at the call is all that matters,
  also when \<open>other\<close> is \<open>*this\<close>. The destructor of \<open>tmp\<close> is defaulted and does
  nothing.
\<close>

definition vector_assign :: "vector_t \<Rightarrow> vector_t \<Rightarrow> vector_t" where
  "vector_assign this other =
     (let tmp = vector_copy other;
          (this', tmp') = vector_swap this tmp
      in this')"

subsection \<open>Accessors\<close>

text \<open>
  The member functions \<open>empty\<close>, \<open>size\<close>, \<open>capacity\<close>, \<open>data\<close>, \<open>front\<close> and
  \<open>back\<close>, each with the prefix \<open>vector_\<close>.
\<close>

definition vector_empty :: "vector_t \<Rightarrow> bool" where
  "vector_empty v = (m_arr v = None)"

definition vector_size :: "vector_t \<Rightarrow> size_t" where
  "vector_size v = m_pos v"

definition vector_capacity :: "vector_t \<Rightarrow> size_t" where
  "vector_capacity v = m_capacity v"


text \<open>
  \<open>arr_[index]\<close>: the buffer \<open>arr_\<close> points to, then the slot. A null or released
  pointer and a slot beyond the buffer are undefined behaviour in the source, and
  errors here.
\<close>

definition buffer_of :: "'a heap \<Rightarrow> vector_t \<Rightarrow> error + 'a list" where
  "buffer_of h v =
     (case m_arr v of
        None \<Rightarrow> Inl NullDereference
      | Some p \<Rightarrow>
          (if p < length h
           then (case h ! p of None \<Rightarrow> Inl InvalidPointer | Some buf \<Rightarrow> Inr buf)
           else Inl InvalidPointer))"

definition vector_at :: "'a heap \<Rightarrow> vector_t \<Rightarrow> size_t \<Rightarrow> error + 'a" where
  "vector_at h v index =
     (case buffer_of h v of
        Inl e \<Rightarrow> Inl e
      | Inr buf \<Rightarrow> (if unat index < length buf then Inr (buf ! unat index) else Inl OutOfBounds))"

text \<open>An assignment through the reference that \<open>operator[]\<close> returns.\<close>

definition vector_store :: "'a heap \<Rightarrow> vector_t \<Rightarrow> size_t \<Rightarrow> 'a \<Rightarrow> error + 'a heap" where
  "vector_store h v index x =
     (case buffer_of h v of
        Inl e \<Rightarrow> Inl e
      | Inr buf \<Rightarrow>
          (if unat index < length buf
           then Inr (h[the (m_arr v) := Some (buf[unat index := x])])
           else Inl OutOfBounds))"

definition vector_front :: "'a heap \<Rightarrow> vector_t \<Rightarrow> error + 'a" where
  "vector_front h v = vector_at h v 0"

definition vector_back :: "'a heap \<Rightarrow> vector_t \<Rightarrow> error + 'a" where
  "vector_back h v = vector_at h v (m_pos v - 1)"


subsection \<open>Programs over several containers\<close>

text \<open>
  A program owns a free store and the containers it has constructed so far, numbered
  in the order of their construction. Each public operation of the class that changes
  anything is an \<open>op\<close>: the three constructors, copy assignment, \<open>swap\<close>, and an
  assignment through the reference that \<open>operator[]\<close>, \<open>front()\<close> or \<open>back()\<close>
  returns (a write through \<open>data()\<close> is a \<open>Store\<close> at some index). A reference to a
  container that was never constructed makes the program ill-formed
  (\<open>NoSuchObject\<close>). The destructor is defaulted and releases nothing, so containers
  are never removed.
\<close>

record 'a state =
  heap :: "'a heap"
  objs :: "vector_t list"

datatype 'a op =
    Default
  | Sized size_t 'a
  | Copy nat
  | Assign nat nat
  | Swap nat nat
  | Store nat size_t 'a
  | StoreFront nat 'a
  | StoreBack nat 'a

definition init :: "'a state" where
  "init = \<lparr>heap = [], objs = []\<rparr>"

fun exec :: "'a \<Rightarrow> 'a op \<Rightarrow> 'a state \<Rightarrow> (error + 'a state) option" where
  "exec d Default s = Some (Inr (s\<lparr>objs := objs s @ [vector_default]\<rparr>))"
| "exec d (Sized elem_num value) s =
     (case vector_sized d elem_num value (heap s) of
        None \<Rightarrow> None
      | Some (Inl e) \<Rightarrow> Some (Inl e)
      | Some (Inr (h', v)) \<Rightarrow> Some (Inr \<lparr>heap = h', objs = objs s @ [v]\<rparr>))"
| "exec d (Copy y) s =
     (if y < length (objs s)
      then Some (Inr (s\<lparr>objs := objs s @ [vector_copy (objs s ! y)]\<rparr>))
      else Some (Inl NoSuchObject))"
| "exec d (Assign x y) s =
     (if x < length (objs s) \<and> y < length (objs s)
      then Some (Inr (s\<lparr>objs := (objs s)[x := vector_assign (objs s ! x) (objs s ! y)]\<rparr>))
      else Some (Inl NoSuchObject))"
| "exec d (Swap x y) s =
     (if x < length (objs s) \<and> y < length (objs s)
      then (case vector_swap (objs s ! x) (objs s ! y) of
              (this, other) \<Rightarrow> Some (Inr (s\<lparr>objs := (objs s)[y := other, x := this]\<rparr>)))
      else Some (Inl NoSuchObject))"
| "exec d (Store x index value) s =
     (if x < length (objs s)
      then (case vector_store (heap s) (objs s ! x) index value of
              Inl e \<Rightarrow> Some (Inl e)
            | Inr h' \<Rightarrow> Some (Inr (s\<lparr>heap := h'\<rparr>)))
      else Some (Inl NoSuchObject))"
| "exec d (StoreFront x value) s =
     (if x < length (objs s)
      then (case vector_store (heap s) (objs s ! x) 0 value of
              Inl e \<Rightarrow> Some (Inl e)
            | Inr h' \<Rightarrow> Some (Inr (s\<lparr>heap := h'\<rparr>)))
      else Some (Inl NoSuchObject))"
| "exec d (StoreBack x value) s =
     (if x < length (objs s)
      then (case vector_store (heap s) (objs s ! x) (m_pos (objs s ! x) - 1) value of
              Inl e \<Rightarrow> Some (Inl e)
            | Inr h' \<Rightarrow> Some (Inr (s\<lparr>heap := h'\<rparr>)))
      else Some (Inl NoSuchObject))"

fun run :: "'a \<Rightarrow> 'a op list \<Rightarrow> 'a state \<Rightarrow> (error + 'a state) option" where
  "run d [] s = Some (Inr s)"
| "run d (opn # ops) s =
     (case exec d opn s of
        None \<Rightarrow> None
      | Some (Inl e) \<Rightarrow> Some (Inl e)
      | Some (Inr s') \<Rightarrow> run d ops s')"

text \<open>
  The invariant that every container a program can reach satisfies: \<open>pos_\<close> is 0 and
  \<open>capacity_\<close> is 0 or a power of two up to \<open>2 ^ 30\<close>.
\<close>

definition vector_inv :: "vector_t \<Rightarrow> bool" where
  "vector_inv v \<longleftrightarrow> m_pos v = 0 \<and> (m_capacity v = 0 \<or> (\<exists>k\<le>30. m_capacity v = 2 ^ k))"

section \<open>The sudoku solver and checker (hw01-sudoku-h3ic)\<close>

subsection \<open>Grids\<close>

text \<open>
  A field is a \<open>std::vector<std::vector<int>>\<close>. The code indexes it with \<open>int\<close>
  variables; \<open>at field i j\<close> is \<open>field[i][j]\<close>. An index outside the vector is
  undefined behaviour in the source and an unspecified value here, so every statement
  below is about \<open>9 \<times> 9\<close> fields and indices the code keeps within \<open>0..8\<close>.
\<close>

type_synonym field = "int list list"

text \<open>
  Modelled from the spec: \<open>FIELD_SIZE\<close>, a constant of \<open>sudoku-solver.h\<close>, which is
  not among the sources. The spec fixes the grid at \<open>9 \<times> 9\<close>.
\<close>

definition FIELD_SIZE :: int where
  "FIELD_SIZE = 9"

definition at :: "field \<Rightarrow> int \<Rightarrow> int \<Rightarrow> int" where
  "at field i j = field ! nat i ! nat j"

text \<open>The assignment \<open>field[row][col] = value\<close>.\<close>

definition set_at :: "field \<Rightarrow> int \<Rightarrow> int \<Rightarrow> int \<Rightarrow> field" where
  "set_at field row col value = field[nat row := (field ! nat row)[nat col := value]]"

text \<open>
  The positions in the order of the nested loops
  \<open>for (row = 0; row < FIELD_SIZE; ++row) for (col = 0; col < FIELD_SIZE; ++col)\<close>.
\<close>

definition scan_order :: "(int \<times> int) list" where
  "scan_order = List.product [0..FIELD_SIZE - 1] [0..FIELD_SIZE - 1]"

subsection \<open>sudoku-solver.cpp\<close>

text \<open>The operator \<open>%\<close> of C++ on \<open>int\<close>, which truncates towards zero.\<close>

definition c_rem :: "int \<Rightarrow> int \<Rightarrow> int" where
  "c_rem a b = sgn a * (\<bar>a\<bar> mod \<bar>b\<bar>)"

text \<open>
  \<open>find_possible_values\<close>. The \<open>std::set<int>\<close> is an ascending list without
  repetition: inserting 1 to 9 in turn gives \<open>[1..9]\<close>, \<open>erase\<close> of a key is
  \<open>removeAll\<close>, and the caller iterates in ascending order.
\<close>

definition find_possible_values :: "field \<Rightarrow> int \<times> int \<Rightarrow> int list" where
  "find_possible_values field empty_pos =
     (let possible_values = [1..FIELD_SIZE];
          row = fst empty_pos;
          col = snd empty_pos;
          possible_values =
            fold (\<lambda>i s. removeAll (at field i col) (removeAll (at field row i) s))
              [0..FIELD_SIZE - 1] possible_values;
          row_block_corner = row - c_rem row 3;
          col_block_corner = col - c_rem col 3
      in fold (\<lambda>i s. fold (\<lambda>j s. removeAll (at field i j) s)
                        [col_block_corner..col_block_corner + 2] s)
           [row_block_corner..row_block_corner + 2] possible_values)"

text \<open>
  \<open>find_empty_position\<close>: the first position in scan order that holds 0, and the
  pair \<open>{-1, -1}\<close> when there is none.
\<close>

definition find_empty_position :: "field \<Rightarrow> int \<times> int" where
  "find_empty_position field =
     (case find (\<lambda>(row, col). at field row col = 0) scan_order of
        Some p \<Rightarrow> p
      | None \<Rightarrow> (- 1, - 1))"

text \<open>\<open>is_complete\<close>: false at the first 0 met in scan order, true when none is met.\<close>

definition is_complete :: "field \<Rightarrow> bool" where
  "is_complete field = (find (\<lambda>(row, col). at field row col = 0) scan_order = None)"

text \<open>
  The body of the loop \<open>for (const auto& value : possible_values)\<close> of
  \<open>solve_recursively\<close>: \<open>field[row][col] = value; sum += solve_recursively(field);\<close>.
  The state of the loop is the field and \<open>sum\<close> (written \<open>sm\<close>), a \<open>size_t\<close> that
  wraps around; \<open>solve\<close> stands for the recursive call, and \<open>None\<close> for a call that
  did not return.
\<close>

definition loop_body ::
  "(field \<Rightarrow> size_t option) \<Rightarrow> int \<Rightarrow> int \<Rightarrow> int \<Rightarrow> (field \<times> size_t) option \<Rightarrow>
     (field \<times> size_t) option" where
  "loop_body solve row col value st =
     (case st of
        None \<Rightarrow> None
      | Some (field, sm) \<Rightarrow>
          (let field = set_at field row col value
           in case solve field of
                None \<Rightarrow> None
              | Some n \<Rightarrow> Some (field, sm + n)))"

text \<open>
  \<open>solve_recursively\<close>. The field is passed by value, so each call owns its copy and
  the loop overwrites the same cell of that copy with each candidate in turn. The
  first argument bounds the depth of the recursion: \<open>None\<close> means the bound was
  reached.
\<close>

fun solve_recursively :: "nat \<Rightarrow> field \<Rightarrow> size_t option" where
  "solve_recursively 0 field = None"
| "solve_recursively (Suc fuel) field =
     (if is_complete field then Some 1
      else
        (let empty_pos = find_empty_position field;
             possible_values = find_possible_values field empty_pos;
             row = fst empty_pos;
             col = snd empty_pos
         in map_option snd
              (fold (loop_body (solve_recursively fuel) row col) possible_values
                 (Some (field, 0)))))"

text \<open>
  \<open>sudoku_solve\<close> returns a pair of the count and a field. For a full field it
  returns \<open>{1, field}\<close>. Otherwise its return statement is
  \<open>{solve_recursively(non_const_field), *solution}\<close>, where \<open>solution\<close> is the local
  \<open>std::vector\<close> declared at the top of the function, which nothing assigns and to
  which no unary \<open>*\<close> applies: that branch yields no pair, whatever the recursive
  call computes. \<open>DepthBound\<close> is the recursive call reaching its bound.
\<close>

datatype solve_error =
    DepthBound
  | NoSolutionObject

definition sudoku_solve :: "nat \<Rightarrow> field \<Rightarrow> solve_error + size_t \<times> field" where
  "sudoku_solve fuel field =
     (if is_complete field then Inr (1, field)
      else (let non_const_field = field
            in case solve_recursively fuel non_const_field of
                 None \<Rightarrow> Inl DepthBound
               | Some n \<Rightarrow> Inl NoSolutionObject))"

subsection \<open>field-checker.cpp\<close>

text \<open>
  \<open>is_unique\<close>: \<open>std::unique\<close> removes each element that equals its predecessor and
  returns the new end, which is the old end exactly when nothing was removed.
\<close>

definition is_unique :: "int list \<Rightarrow> bool" where
  "is_unique element = (length (remdups_adj element) = length element)"

text \<open>
  The values of a loop variable that starts at \<open>i\<close> and steps by 3 while \<open>i \<le> bound\<close>.
  On \<open>int\<close> the condition \<open>col < FIELD_SIZE - 3\<close> is \<open>col \<le> FIELD_SIZE - 3 - 1\<close>.
\<close>

function step3 :: "int \<Rightarrow> int \<Rightarrow> int list" where
  "step3 i bound = (if i \<le> bound then i # step3 (i + 3) bound else [])"
  by pat_completeness auto
termination
  by (relation "measure (\<lambda>(i, bound). nat (bound + 1 - i))") auto

text \<open>
  \<open>check_field\<close>: four groups of loops, each returning \<open>false\<close> at the first
  failure. The block loops run \<open>row\<close> while \<open>row <= FIELD_SIZE - 3\<close> and \<open>col\<close>
  while \<open>col < FIELD_SIZE - 3\<close>.
\<close>

definition check_field :: "field \<Rightarrow> field \<Rightarrow> bool" where
  "check_field init_field solution =
     (if list_ex (\<lambda>(i, j).
            (at solution i j \<le> 0 \<or> at solution i j > FIELD_SIZE) \<or>
            (at init_field i j \<noteq> 0 \<and> at solution i j \<noteq> at init_field i j)) scan_order
      then False
      else if list_ex (\<lambda>row. \<not> is_unique (solution ! nat row)) [0..FIELD_SIZE - 1]
      then False
      else if list_ex (\<lambda>col. \<not> is_unique (map (\<lambda>row. at solution row col) [0..FIELD_SIZE - 1]))
                [0..FIELD_SIZE - 1]
      then False
      else if list_ex (\<lambda>row. list_ex (\<lambda>col.
                  \<not> is_unique (concat (map (\<lambda>i. map (\<lambda>j. at solution (row + i) (col + j)) [0..2])
                                          [0..2])))
                  (step3 0 (FIELD_SIZE - 3 - 1)))
                (step3 0 (FIELD_SIZE - 3))
      then False
      else True)"

subsection \<open>What the specification asks of a solution\<close>

text \<open>
  The cells of each row, each column and each \<open>3 \<times> 3\<close> block, and the 27 units
  together.
\<close>

definition row_cells :: "int \<Rightarrow> (int \<times> int) list" where
  "row_cells r = map (\<lambda>c. (r, c)) [0..8]"

definition col_cells :: "int \<Rightarrow> (int \<times> int) list" where
  "col_cells c = map (\<lambda>r. (r, c)) [0..8]"

definition block_cells :: "int \<times> int \<Rightarrow> (int \<times> int) list" where
  "block_cells b = map (\<lambda>(i, j). (3 * fst b + i, 3 * snd b + j)) (List.product [0..2] [0..2])"

definition unit_cells :: "(int \<times> int) list list" where
  "unit_cells = map row_cells [0..8] @ map col_cells [0..8] @
                map block_cells (List.product [0..2] [0..2])"

definition vals :: "field \<Rightarrow> (int \<times> int) list \<Rightarrow> int list" where
  "vals g u = map (\<lambda>(r, c). at g r c) u"

definition is_grid :: "field \<Rightarrow> bool" where
  "is_grid g \<longleftrightarrow> length g = 9 \<and> list_all (\<lambda>row. length row = 9) g"

text \<open>
  A valid solution: a \<open>9 \<times> 9\<close> grid, every cell in \<open>1..9\<close>, no duplicate in any row,
  column or block.
\<close>

definition valid_solution :: "field \<Rightarrow> bool" where
  "valid_solution g \<longleftrightarrow>
     is_grid g \<and> list_all (\<lambda>(r, c). 1 \<le> at g r c \<and> at g r c \<le> 9) (List.product [0..8] [0..8]) \<and>
     list_all (\<lambda>u. distinct (vals g u)) unit_cells"

text \<open>A candidate preserves the prefilled (nonzero) values of the original.\<close>

definition preserves :: "field \<Rightarrow> field \<Rightarrow> bool" where
  "preserves f g \<longleftrightarrow>
     list_all (\<lambda>(r, c). at f r c = 0 \<or> at g r c = at f r c) (List.product [0..8] [0..8])"

definition completions :: "field \<Rightarrow> field set" where
  "completions f = {g. valid_solution g \<and> preserves f g}"

text \<open>
  A grid whose prefilled values do not already clash: every cell in \<open>0..9\<close>, and no
  nonzero value twice in a row, column or block.
\<close>

definition consistent :: "field \<Rightarrow> bool" where
  "consistent f \<longleftrightarrow>
     list_all (\<lambda>(r, c). 0 \<le> at f r c \<and> at f r c \<le> 9) (List.product [0..8] [0..8]) \<and>
     list_all (\<lambda>u. distinct (filter (\<lambda>v. v \<noteq> 0) (vals f u))) unit_cells"

definition count_empty :: "field \<Rightarrow> nat" where
  "count_empty f = length (filter (\<lambda>(r, c). at f r c = 0) (List.product [0..8] [0..8]))"

subsection \<open>Cells, units and empty cells\<close>

text \<open>
  The positions of a grid, the value a grid holds at a position, and the relation of
  two positions that share a row, a column or a block.
\<close>

definition cells :: "(int \<times> int) set" where
  "cells = {0..8} \<times> {0..8}"

definition cell :: "field \<Rightarrow> int \<times> int \<Rightarrow> int" where
  "cell g p = at g (fst p) (snd p)"

definition same_unit :: "int \<times> int \<Rightarrow> int \<times> int \<Rightarrow> bool" where
  "same_unit p q \<longleftrightarrow>
     fst p = fst q \<or> snd p = snd q \<or> (fst p div 3 = fst q div 3 \<and> snd p div 3 = snd q div 3)"

subsection \<open>Example grids\<close>

definition zero_field :: field where
  "zero_field = replicate 9 (replicate 9 0)"

definition ones_field :: field where
  "ones_field = replicate 9 (replicate 9 1)"

text \<open>A grid of 1s and 2s in which neighbours differ: every row, column and block repeats.\<close>

definition checkerboard :: field where
  "checkerboard =
    [[1, 2, 1, 2, 1, 2, 1, 2, 1],
     [2, 1, 2, 1, 2, 1, 2, 1, 2],
     [1, 2, 1, 2, 1, 2, 1, 2, 1],
     [2, 1, 2, 1, 2, 1, 2, 1, 2],
     [1, 2, 1, 2, 1, 2, 1, 2, 1],
     [2, 1, 2, 1, 2, 1, 2, 1, 2],
     [1, 2, 1, 2, 1, 2, 1, 2, 1],
     [2, 1, 2, 1, 2, 1, 2, 1, 2],
     [1, 2, 1, 2, 1, 2, 1, 2, 1]]"

text \<open>
  Two grids that differ only in where a pair of 9s sits: at the end of row 0 and the
  start of row 1 of the top right block, or of the top left block. Read block by
  block, row after row, the two 9s follow each other.
\<close>

definition nines_right :: field where
  "nines_right =
    [[1, 2, 3, 1, 2, 3, 1, 2, 9],
     [2, 3, 1, 2, 3, 1, 9, 3, 1],
     [3, 1, 2, 3, 1, 2, 3, 1, 2],
     [1, 2, 3, 1, 2, 3, 1, 2, 3],
     [2, 3, 1, 2, 3, 1, 2, 3, 1],
     [3, 1, 2, 3, 1, 2, 3, 1, 2],
     [1, 2, 3, 1, 2, 3, 1, 2, 3],
     [2, 3, 1, 2, 3, 1, 2, 3, 1],
     [3, 1, 2, 3, 1, 2, 3, 1, 2]]"

definition nines_left :: field where
  "nines_left =
    [[1, 2, 9, 1, 2, 3, 1, 2, 3],
     [9, 3, 1, 2, 3, 1, 2, 3, 1],
     [3, 1, 2, 3, 1, 2, 3, 1, 2],
     [1, 2, 3, 1, 2, 3, 1, 2, 3],
     [2, 3, 1, 2, 3, 1, 2, 3, 1],
     [3, 1, 2, 3, 1, 2, 3, 1, 2],
     [1, 2, 3, 1, 2, 3, 1, 2, 3],
     [2, 3, 1, 2, 3, 1, 2, 3, 1],
     [3, 1, 2, 3, 1, 2, 3, 1, 2]]"

text \<open>A solved grid, and the same grid with its 1s and 2s blanked, which has two completions.\<close>

definition solved :: field where
  "solved =
    [[1, 2, 3, 4, 5, 6, 7, 8, 9],
     [4, 5, 6, 7, 8, 9, 1, 2, 3],
     [7, 8, 9, 1, 2, 3, 4, 5, 6],
     [2, 3, 4, 5, 6, 7, 8, 9, 1],
     [5, 6, 7, 8, 9, 1, 2, 3, 4],
     [8, 9, 1, 2, 3, 4, 5, 6, 7],
     [3, 4, 5, 6, 7, 8, 9, 1, 2],
     [6, 7, 8, 9, 1, 2, 3, 4, 5],
     [9, 1, 2, 3, 4, 5, 6, 7, 8]]"


definition two_solutions :: field where
  "two_solutions =
    [[0, 0, 3, 4, 5, 6, 7, 8, 9],
     [4, 5, 6, 7, 8, 9, 0, 0, 3],
     [7, 8, 9, 0, 0, 3, 4, 5, 6],
     [0, 3, 4, 5, 6, 7, 8, 9, 0],
     [5, 6, 7, 8, 9, 0, 0, 3, 4],
     [8, 9, 0, 0, 3, 4, 5, 6, 7],
     [3, 4, 5, 6, 7, 8, 9, 0, 0],
     [6, 7, 8, 9, 0, 0, 3, 4, 5],
     [9, 0, 0, 3, 4, 5, 6, 7, 8]]"

section \<open>Proofs about the dynamic array\<close>

subsection \<open>The loop of the sized constructor\<close>

lemma unat_pow2: "k < 64 \<Longrightarrow> unat ((2::size_t) ^ k) = 2 ^ k"
proof -
  assume k: "k < 64"
  have lt: "(2::nat) ^ k < 2 ^ 64" using k by (intro power_strict_increasing) auto
  have "(2::size_t) ^ k = word_of_nat (2 ^ k)" by simp
  then have "unat ((2::size_t) ^ k) = (2 ^ k) mod 2 ^ LENGTH(64)"
    by (simp only: unat_of_nat)
  then show ?thesis using lt by simp
qed

lemma pow2_less_size_t:
  "k \<le> 30 \<Longrightarrow> ((word_of_int (2 ^ k) :: size_t) < n) = (2 ^ k < unat n)"
  by (simp add: word_less_nat_alt unat_pow2)

lemma power_loop_pow2:
  "k \<le> 30 \<Longrightarrow> unat n \<le> 2 ^ 30 \<Longrightarrow> 30 - k = d \<Longrightarrow>
   \<exists>j. k \<le> j \<and> j \<le> 30 \<and> power_loop (2 ^ k) n = Some (Inr (2 ^ j)) \<and>
       unat n \<le> 2 ^ j \<and> (k < j \<longrightarrow> 2 ^ (j - 1) < unat n)"
proof (induction d arbitrary: k)
  case 0
  then have k: "k = 30" by simp
  have "\<not> (word_of_int (2 ^ k) :: size_t) < n"
    using 0 pow2_less_size_t [OF 0(1), of n] by (simp add: k)
  then have "power_loop (2 ^ k) n = Some (Inr (2 ^ k))"
    by (subst power_loop.simps) simp
  then show ?case using 0 k by auto
next
  case (Suc d)
  show ?case
  proof (cases "(word_of_int (2 ^ k) :: size_t) < n")
    case False
    then have "power_loop (2 ^ k) n = Some (Inr (2 ^ k))"
      by (subst power_loop.simps) simp
    moreover have "unat n \<le> 2 ^ k"
      using False pow2_less_size_t [OF Suc.prems(1), of n] by simp
    ultimately show ?thesis using Suc.prems by auto
  next
    case True
    then have lt: "2 ^ k < unat n"
      using pow2_less_size_t [OF Suc.prems(1), of n] by simp
    have k': "Suc k \<le> 30" "30 - Suc k = d" using Suc.prems by auto
    have "(2::int) ^ Suc k \<le> 2 ^ 30" using k' by (intro power_increasing) auto
    then have "(2::int) ^ k * 2 \<le> 1073741824" by simp
    moreover have "(0::int) < 2 ^ k" by simp
    ultimately have nov: "\<not> ((2::int) ^ k * 2 < INT_MIN \<or> INT_MAX < 2 ^ k * 2)"
      unfolding INT_MIN_def INT_MAX_def by linarith
    have step: "power_loop (2 ^ k) n = power_loop (2 ^ Suc k) n"
      using True nov by (subst power_loop.simps) (simp add: mult.commute)
    from Suc.IH [OF k'(1) Suc.prems(2) k'(2)] obtain j where
      j: "Suc k \<le> j" "j \<le> 30" "power_loop (2 ^ Suc k) n = Some (Inr (2 ^ j))"
         "unat n \<le> 2 ^ j" "Suc k < j \<longrightarrow> 2 ^ (j - 1) < unat n"
      by blast
    have "k < j \<longrightarrow> 2 ^ (j - 1) < unat n"
    proof (cases "j = Suc k")
      case True
      then show ?thesis using lt by simp
    next
      case False
      then show ?thesis using j by auto
    qed
    then show ?thesis using j step by (intro exI [of _ j]) auto
  qed
qed


lemma power_loop_overflow:
  "k \<le> 30 \<Longrightarrow> 2 ^ 30 < unat n \<Longrightarrow> 30 - k = d \<Longrightarrow>
   power_loop (2 ^ k) n = Some (Inl SignedOverflow)"
proof (induction d arbitrary: k)
  case 0
  then have k: "k = 30" by simp
  have "(word_of_int (2 ^ k) :: size_t) < n"
    using 0 pow2_less_size_t [OF 0(1), of n] by (simp add: k)
  then show ?case
    by (subst power_loop.simps) (simp add: k INT_MAX_def)
next
  case (Suc d)
  have k': "Suc k \<le> 30" "30 - Suc k = d" using Suc.prems by auto
  have "(2::nat) ^ k \<le> 2 ^ 30" using Suc.prems by (intro power_increasing) auto
  then have less: "(word_of_int (2 ^ k) :: size_t) < n"
    using Suc.prems pow2_less_size_t [OF Suc.prems(1), of n] by simp
  have "(2::int) ^ Suc k \<le> 2 ^ 30" using k' by (intro power_increasing) auto
  then have "(2::int) ^ k * 2 \<le> 1073741824" by simp
  moreover have "(0::int) < 2 ^ k" by simp
  ultimately have nov: "\<not> ((2::int) ^ k * 2 < INT_MIN \<or> INT_MAX < 2 ^ k * 2)"
    unfolding INT_MIN_def INT_MAX_def by linarith
  have "power_loop (2 ^ k) n = power_loop (2 ^ Suc k) n"
    using less nov by (subst power_loop.simps) (simp add: mult.commute)
  then show ?case using Suc.IH [OF k'(1) Suc.prems(2) k'(2)] by simp
qed

text \<open>
  What the loop of the sized constructor returns: for a count of at most \<open>2 ^ 30\<close>
  the least power of two that is not below the count, and undefined behaviour beyond.
\<close>

lemma power_loop_1:
  "unat n \<le> 2 ^ 30 \<Longrightarrow>
     \<exists>j\<le>30. power_loop 1 n = Some (Inr (2 ^ j)) \<and> unat n \<le> 2 ^ j \<and>
       (0 < j \<longrightarrow> 2 ^ (j - 1) < unat n)"
  "2 ^ 30 < unat n \<Longrightarrow> power_loop 1 n = Some (Inl SignedOverflow)"
  using power_loop_pow2 [of 0 n 30] power_loop_overflow [of 0 n 30] by auto

subsection \<open>The invariant\<close>

lemma vector_sized_inv:
  assumes "vector_sized d n value h = Some (Inr (h', v))"
  shows "vector_inv v"
proof (cases "n = 0")
  case True
  then show ?thesis using assms by (auto simp: vector_sized_def vector_inv_def)
next
  case False
  show ?thesis
  proof (cases "unat n \<le> 2 ^ 30")
    case True
    from power_loop_1(1) [OF True] obtain j where
      j: "j \<le> 30" "power_loop 1 n = Some (Inr (2 ^ j))" by blast
    then show ?thesis
      using assms False
      by (auto simp: vector_sized_def vector_inv_def new_array_def Let_def)
  next
    case False
    then have "power_loop 1 n = Some (Inl SignedOverflow)"
      using power_loop_1(2) by simp
    then show ?thesis using assms \<open>n \<noteq> 0\<close> by (simp add: vector_sized_def)
  qed
qed

lemma swap_pos_twice: "swap_pos (swap_pos p) = p"
  by (cases p) (simp add: swap_pos_def)

lemma vector_swap_eq:
  "vector_swap this other = (this\<lparr>m_pos := m_pos other\<rparr>, other\<lparr>m_pos := m_pos this\<rparr>)"
  by (simp add: vector_swap_def swap_pos_twice) (simp add: swap_pos_def)

lemma vector_assign_eq: "vector_assign this other = this\<lparr>m_pos := m_pos other\<rparr>"
  by (simp add: vector_assign_def vector_swap_eq vector_copy_def)

lemma exec_inv:
  assumes "exec d opn s = Some (Inr s')" and "\<forall>v\<in>set (objs s). vector_inv v"
  shows "\<forall>v\<in>set (objs s'). vector_inv v"
proof (cases opn)
  case Default
  then show ?thesis using assms by (auto simp: vector_default_def vector_inv_def)
next
  case (Sized n x)
  then show ?thesis
    using assms by (auto split: option.splits sum.splits dest: vector_sized_inv)
next
  case (Copy y)
  then show ?thesis
    using assms by (auto simp: vector_copy_def vector_inv_def split: if_splits)
next
  case (Assign x y)
  have "vector_inv (vector_assign (objs s ! x) (objs s ! y))"
    if "x < length (objs s)" "y < length (objs s)"
    using that assms(2) by (simp add: vector_assign_eq vector_inv_def)
  then show ?thesis
    using Assign assms by (auto split: if_splits dest!: set_update_subset_insert [THEN subsetD])
next
  case (Swap x y)
  have "vector_inv ((objs s ! x)\<lparr>m_pos := m_pos (objs s ! y)\<rparr>)"
       "vector_inv ((objs s ! y)\<lparr>m_pos := m_pos (objs s ! x)\<rparr>)"
    if "x < length (objs s)" "y < length (objs s)"
    using that assms(2) by (simp_all add: vector_inv_def)
  then show ?thesis
    using Swap assms
    by (auto simp: vector_swap_eq split: if_splits dest!: set_update_subset_insert [THEN subsetD])
next
  case (Store x i y)
  then show ?thesis using assms by (auto split: if_splits sum.splits)
next
  case (StoreFront x y)
  then show ?thesis using assms by (auto split: if_splits sum.splits)
next
  case (StoreBack x y)
  then show ?thesis using assms by (auto split: if_splits sum.splits)
qed

lemma run_inv:
  "run d ops s = Some (Inr s') \<Longrightarrow> \<forall>v\<in>set (objs s). vector_inv v \<Longrightarrow>
   \<forall>v\<in>set (objs s'). vector_inv v"
proof (induction ops arbitrary: s)
  case Nil
  then show ?case by simp
next
  case (Cons opn ops)
  from Cons.prems(1) obtain s1 where
    s1: "exec d opn s = Some (Inr s1)" "run d ops s1 = Some (Inr s')"
    by (auto split: option.splits sum.splits)
  from exec_inv [OF s1(1) Cons.prems(2)] Cons.IH [OF s1(2)] show ?case by blast
qed

lemma vector_inv_capacity_law:
  assumes "vector_inv v"
  shows "(vector_capacity v = 0 \<or> (\<exists>k. unat (vector_capacity v) = 2 ^ k)) \<and>
         vector_size v \<le> vector_capacity v"
proof -
  have "\<exists>k. unat (m_capacity v) = 2 ^ k" if "m_capacity v \<noteq> 0"
  proof -
    from assms that obtain k where "k \<le> 30" "m_capacity v = 2 ^ k"
      by (auto simp: vector_inv_def)
    then have "unat (m_capacity v) = 2 ^ k" by (simp add: unat_pow2)
    then show ?thesis ..
  qed
  then show ?thesis
    using assms by (auto simp: vector_inv_def vector_capacity_def vector_size_def)
qed

subsection \<open>The claims about the container, on the code\<close>

text \<open>
  Claim C1. After any sequence of the public operations, every container the program
  holds has a capacity that is 0 or a power of two, and a size that is at most its
  capacity. The operations are those \<open>vector.h\<close> defines: the three constructors,
  copy assignment, \<open>swap\<close> and the writes through \<open>operator[]\<close>, \<open>front()\<close> and
  \<open>back()\<close>; a sequence counts when it runs to its end without undefined behaviour.
\<close>

theorem capacity_law:
  assumes "run d ops init = Some (Inr s)" and "v \<in> set (objs s)"
  shows "(vector_capacity v = 0 \<or> (\<exists>k. unat (vector_capacity v) = 2 ^ k)) \<and>
         vector_size v \<le> vector_capacity v"
proof -
  have "\<forall>v\<in>set (objs (init :: 'a state)). vector_inv v" by (simp add: init_def)
  with run_inv [OF assms(1)] assms(2) have "vector_inv v" by blast
  then show ?thesis by (rule vector_inv_capacity_law)
qed

theorem capacity_law_witness:
  "run (0::int) [Sized 10 10, Default, Copy 0, Assign 1 0, Swap 0 1, Store 0 3 7] init =
     Some (Inr \<lparr>heap = [Some [0, 0, 0, 7, 0, 0, 0, 0, 0, 0, 0, 0, 0, 0, 0, 0]],
            objs = [\<lparr>m_capacity = 16, m_arr = Some 0, m_pos = 0\<rparr>,
                    \<lparr>m_capacity = 0, m_arr = None, m_pos = 0\<rparr>,
                    \<lparr>m_capacity = 0, m_arr = None, m_pos = 0\<rparr>]\<rparr>) \<and>
   (vector_capacity \<lparr>m_capacity = 16, m_arr = Some 0, m_pos = 0\<rparr> = 0 \<or>
      (\<exists>k. unat (vector_capacity \<lparr>m_capacity = 16, m_arr = Some 0, m_pos = 0\<rparr>) = 2 ^ k)) \<and>
   vector_size \<lparr>m_capacity = 16, m_arr = Some 0, m_pos = 0\<rparr>
     \<le> vector_capacity \<lparr>m_capacity = 16, m_arr = Some 0, m_pos = 0\<rparr>"
proof -
  let ?s = "\<lparr>heap = [Some [0, 0, 0, 7, 0, 0, 0, 0, 0, 0, 0, 0, 0, 0, 0, 0 :: int]],
            objs = [\<lparr>m_capacity = 16, m_arr = Some 0, m_pos = 0\<rparr>,
                    \<lparr>m_capacity = 0, m_arr = None, m_pos = 0\<rparr>,
                    \<lparr>m_capacity = 0, m_arr = None, m_pos = 0\<rparr>]\<rparr>"
  have r: "run (0::int) [Sized 10 10, Default, Copy 0, Assign 1 0, Swap 0 1, Store 0 3 7] init
             = Some (Inr ?s)"
    by code_simp
  have m: "\<lparr>m_capacity = 16, m_arr = Some 0, m_pos = 0\<rparr> \<in> set (objs ?s)" by simp
  from capacity_law [OF r m] r show ?thesis by simp
qed

text \<open>
  Claim C2. The sized constructor with a count \<open>n > 0\<close> and a fill value should give
  size \<open>n\<close> and \<open>n\<close> slots equal to the value. With count 10 and value "abacaba" the
  code gives capacity 16 but size 0, and slot 0 holds the default-constructed string.
\<close>

theorem sized_constructor_leaves_size_zero:
  "vector_sized (''''::string) 10 ''abacaba'' [] =
     Some (Inr ([Some (replicate 16 (''''::string))], \<lparr>m_capacity = 16, m_arr = Some 0, m_pos = 0\<rparr>)) \<and>
   vector_size \<lparr>m_capacity = 16, m_arr = Some 0, m_pos = 0\<rparr> = 0 \<and>
   vector_at [Some (replicate 16 (''''::string))] \<lparr>m_capacity = 16, m_arr = Some 0, m_pos = 0\<rparr> 0 = Inr (''''::string)"
  by code_simp

text \<open>
  Claim C3. A copy should have the source's size and elements in a fresh buffer of the
  least sufficient power-of-two capacity. The copy constructor copies \<open>pos_\<close> only: a
  source of size 7 and capacity 16 gives a copy of size 7 with capacity 0 and no
  buffer. Assigning an empty container to one of capacity 16 leaves capacity 16 and
  the old buffer in place, and a write into the copy of a 10-slot container goes
  through a null pointer.
\<close>

theorem copy_allocates_nothing:
  "vector_copy \<lparr>m_capacity = 16, m_arr = Some 0, m_pos = 7\<rparr> =
     \<lparr>m_capacity = 0, m_arr = None, m_pos = 7\<rparr> \<and>
   run (''''::string) [Default, Sized 10 ''abacaba'', Assign 1 0] init =
     Some (Inr \<lparr>heap = [Some (replicate 16 (''''::string))],
            objs = [\<lparr>m_capacity = 0, m_arr = None, m_pos = 0\<rparr>,
                    \<lparr>m_capacity = 16, m_arr = Some 0, m_pos = 0\<rparr>]\<rparr>) \<and>
   run (''''::string) [Sized 10 ''a'', Copy 0, Store 1 0 ''b''] init = Some (Inl NullDereference)"
  by code_simp

text \<open>
  Claim C4. \<open>a.swap(b)\<close> should exchange size, capacity and buffer. The code
  exchanges \<open>pos_\<close> only: after constructing \<open>a\<close> with count 10 and \<open>b\<close> with count
  5 and swapping, \<open>a\<close> still has capacity 16 and its own buffer, and \<open>b\<close> capacity 8.
  The elements are \<open>int\<close>s, left uninitialised by \<open>new\<close>: \<open>d\<close> is any value.
\<close>

theorem swap_keeps_capacity_and_buffer:
  "run d [Sized 10 (10::int), Sized 5 5, Swap 0 1] init =
     Some (Inr \<lparr>heap = [Some (replicate 16 d), Some (replicate 8 d)],
            objs = [\<lparr>m_capacity = 16, m_arr = Some 0, m_pos = 0\<rparr>,
                    \<lparr>m_capacity = 8, m_arr = Some 1, m_pos = 0\<rparr>]\<rparr>)"
proof -
  have "power_loop 1 10 = Some (Inr 16)" "power_loop 1 5 = Some (Inr 8)"
    by code_simp+
  then show ?thesis
    by (simp add: init_def vector_sized_def new_array_def vector_swap_eq)
qed

text \<open>
  Claim C6. Self-assignment \<open>a = a\<close> leaves \<open>a\<close> unchanged: the same size, the same
  capacity, and the same result of \<open>a[i]\<close> at every index below the size.
\<close>

theorem self_assignment_unchanged:
  assumes "x < length (objs s)"
  shows "\<exists>s'. exec d (Assign x x) s = Some (Inr s') \<and>
           vector_size (objs s' ! x) = vector_size (objs s ! x) \<and>
           vector_capacity (objs s' ! x) = vector_capacity (objs s ! x) \<and>
           (\<forall>i. i < vector_size (objs s ! x) \<longrightarrow>
              vector_at (heap s') (objs s' ! x) i = vector_at (heap s) (objs s ! x) i)"
  using assms by (simp add: vector_assign_eq)

theorem self_assignment_unchanged_witness:
  "(0::nat) < length (objs \<lparr>heap = [Some [1, 2 :: int]],
                            objs = [\<lparr>m_capacity = 2, m_arr = Some 0, m_pos = 2\<rparr>]\<rparr>) \<and>
   (\<exists>s'. exec (0::int) (Assign 0 0)
            \<lparr>heap = [Some [1, 2]], objs = [\<lparr>m_capacity = 2, m_arr = Some 0, m_pos = 2\<rparr>]\<rparr>
          = Some (Inr s') \<and>
      vector_size (objs s' ! 0) = 2 \<and> vector_capacity (objs s' ! 0) = 2 \<and>
      vector_at (heap s') (objs s' ! 0) 1 = Inr 2)"
proof -
  let ?s = "\<lparr>heap = [Some [1, 2 :: int]],
            objs = [\<lparr>m_capacity = 2, m_arr = Some 0, m_pos = 2\<rparr>]\<rparr>"
  have h: "(0::nat) < length (objs ?s)" by simp
  from self_assignment_unchanged [OF h, of 0] obtain s' where
    s': "exec (0::int) (Assign 0 0) ?s = Some (Inr s')"
        "vector_size (objs s' ! 0) = vector_size (objs ?s ! 0)"
        "vector_capacity (objs s' ! 0) = vector_capacity (objs ?s ! 0)"
        "\<forall>i. i < vector_size (objs ?s ! 0) \<longrightarrow>
           vector_at (heap s') (objs s' ! 0) i = vector_at (heap ?s) (objs ?s ! 0) i"
    by blast
  have "(1 :: size_t) < vector_size (objs ?s ! 0)" by (simp add: vector_size_def)
  with s'(4) have "vector_at (heap s') (objs s' ! 0) 1 = vector_at (heap ?s) (objs ?s ! 0) 1"
    by blast
  then have "vector_at (heap s') (objs s' ! 0) 1 = Inr 2"
    by (simp add: vector_at_def buffer_of_def)
  with s'(1,2,3) h show ?thesis
    by (auto simp: vector_size_def vector_capacity_def)
qed

text \<open>
  Claim C7. \<open>empty()\<close> should hold exactly when \<open>size()\<close> is 0. \<open>empty()\<close> tests the
  buffer pointer and the sized constructor leaves \<open>pos_\<close> at 0, so the container
  constructed with count 10 is not empty and has size 0.
\<close>

theorem nonempty_with_size_zero:
  "run (''''::string) [Sized 10 ''abacaba''] init =
     Some (Inr \<lparr>heap = [Some (replicate 16 (''''::string))],
            objs = [\<lparr>m_capacity = 16, m_arr = Some 0, m_pos = 0\<rparr>]\<rparr>) \<and>
   \<not> vector_empty \<lparr>m_capacity = 16, m_arr = Some 0, m_pos = 0\<rparr> \<and>
   vector_size \<lparr>m_capacity = 16, m_arr = Some 0, m_pos = 0\<rparr> = 0"
  by code_simp

subsection \<open>A default-constructed container under the operations of the class\<close>





section \<open>Proofs about the sudoku solver and checker\<close>

subsection \<open>Cells and their values\<close>

lemma set_scan_order: "set scan_order = cells"
  by (simp only: scan_order_def FIELD_SIZE_def set_product set_upto cells_def) simp

lemma set_product_08: "set (List.product [0..8] [0..8]) = cells"
  by (simp only: set_product set_upto cells_def)

lemma distinct_product_08: "distinct (List.product [0..8] [0..8])"
  by (simp only: distinct_product distinct_upto)

lemma cellsI: "0 \<le> r \<Longrightarrow> r \<le> 8 \<Longrightarrow> 0 \<le> c \<Longrightarrow> c \<le> 8 \<Longrightarrow> (r, c) \<in> cells"
  by (simp add: cells_def)

lemma cellsD: "(r, c) \<in> cells \<Longrightarrow> 0 \<le> r \<and> r \<le> 8 \<and> 0 \<le> c \<and> c \<le> 8"
  by (simp add: cells_def)

lemma finite_cells: "finite cells"
  by (simp add: cells_def)

lemma is_grid_iff: "is_grid g \<longleftrightarrow> length g = 9 \<and> (\<forall>i<9. length (g ! i) = 9)"
  by (auto simp: is_grid_def list_all_length)

lemma grid_ext:
  assumes "is_grid f" and "is_grid g"
    and "\<And>r c. (r, c) \<in> cells \<Longrightarrow> at f r c = at g r c"
  shows "f = g"
proof (rule nth_equalityI)
  show "length f = length g" using assms(1,2) by (simp add: is_grid_iff)
next
  fix i assume "i < length f"
  then have i: "i < 9" using assms(1) by (simp add: is_grid_iff)
  show "f ! i = g ! i"
  proof (rule nth_equalityI)
    show "length (f ! i) = length (g ! i)" using assms(1,2) i by (simp add: is_grid_iff)
  next
    fix j assume "j < length (f ! i)"
    then have j: "j < 9" using assms(1) i by (simp add: is_grid_iff)
    have "(int i, int j) \<in> cells" using i j by (simp add: cells_def)
    from assms(3) [OF this] show "f ! i ! j = g ! i ! j" by (simp add: at_def)
  qed
qed

lemma is_grid_set_at: "is_grid f \<Longrightarrow> is_grid (set_at f r c v)"
  by (cases "nat r < length f")
     (auto simp: is_grid_iff set_at_def nth_list_update list_update_beyond)

lemma at_set_at:
  assumes "is_grid f" and "(r, c) \<in> cells" and "(r', c') \<in> cells"
  shows "at (set_at f r c v) r' c' = (if r' = r \<and> c' = c then v else at f r' c')"
proof -
  have b: "nat r < 9" "nat c < 9" "nat r' < 9" "nat c' < 9"
    using assms(2,3) by (auto simp: cells_def)
  have e: "nat r' = nat r \<longleftrightarrow> r' = r" "nat c' = nat c \<longleftrightarrow> c' = c"
    using assms(2,3) by (auto simp: cells_def)
  show ?thesis
    using assms(1) b e by (auto simp: at_def set_at_def is_grid_iff nth_list_update)
qed

lemma set_at_overwrite: "set_at (set_at f r c v) r c w = set_at f r c w"
  by (cases "nat r < length f") (simp_all add: set_at_def list_update_beyond)

subsection \<open>The scans for an empty cell\<close>

lemma is_complete_iff: "is_complete f \<longleftrightarrow> (\<forall>(r, c)\<in>cells. at f r c \<noteq> 0)"
  by (auto simp: is_complete_def find_None_iff set_scan_order)

lemma find_empty_position_empty:
  assumes "\<not> is_complete f"
  shows "find_empty_position f \<in> cells \<and>
         at f (fst (find_empty_position f)) (snd (find_empty_position f)) = 0"
proof -
  from assms obtain p where p: "find (\<lambda>(row, col). at f row col = 0) scan_order = Some p"
    by (auto simp: is_complete_def)
  then have "p \<in> set scan_order" "(\<lambda>(row, col). at f row col = 0) p"
    by (metis find_Some_iff nth_mem)+
  then show ?thesis
    using p by (auto simp: find_empty_position_def set_scan_order)
qed

subsection \<open>The candidates\<close>

lemma c_rem_nonneg: "0 \<le> a \<Longrightarrow> c_rem a 3 = a mod 3"
  by (cases "a = 0") (simp_all add: c_rem_def)

lemma fold_erase:
  assumes "\<And>i s. set (step i s) = set s - h i"
    and "\<And>i s. distinct s \<Longrightarrow> distinct (step i s)"
  shows "set (fold step is s) = set s - (\<Union>i\<in>set is. h i) \<and>
         (distinct s \<longrightarrow> distinct (fold step is s))"
  by (induction "is" arbitrary: s) (auto simp: assms)

lemma erased_iff:
  "v \<in> A - (\<Union>i\<in>I. {a i, b i}) - (\<Union>i\<in>R. \<Union>j\<in>C. {g i j}) \<longleftrightarrow>
     v \<in> A \<and> (\<forall>i\<in>I. a i \<noteq> v \<and> b i \<noteq> v) \<and> (\<forall>i j. i \<in> R \<and> j \<in> C \<longrightarrow> g i j \<noteq> v)"
  by blast

lemma block_range: "0 \<le> r \<Longrightarrow> (i \<in> {r - r mod 3..r - r mod 3 + 2}) = (i div 3 = r div (3::int))"
  by (simp, presburger)

lemma find_possible_values_set:
  assumes "(r, c) \<in> cells"
  shows "set (find_possible_values f (r, c)) =
           {v. 1 \<le> v \<and> v \<le> 9 \<and> (\<forall>q\<in>cells. same_unit (r, c) q \<longrightarrow> at f (fst q) (snd q) \<noteq> v)}"
    and "distinct (find_possible_values f (r, c))"
proof -
  have rc: "0 \<le> r" "r \<le> 8" "0 \<le> c" "c \<le> 8" using assms by (auto simp: cells_def)
  define s1 where
    "s1 = fold (\<lambda>i s. removeAll (at f i c) (removeAll (at f r i) s)) [0..8] [1..9]"
  have "set s1 = set [1..9] - (\<Union>i\<in>set [0..8]. {at f r i, at f i c}) \<and>
        (distinct [1..9] \<longrightarrow> distinct s1)"
    unfolding s1_def by (rule fold_erase) (auto simp: distinct_removeAll)
  then have s1: "set s1 = {1..9} - (\<Union>i\<in>{0..8}. {at f r i, at f i c})" "distinct s1"
    by (simp_all only: set_upto distinct_upto simp_thms)
  have inner: "set (fold (\<lambda>j s. removeAll (at f i j) s) js s) = set s - (\<Union>j\<in>set js. {at f i j}) \<and>
               (distinct s \<longrightarrow> distinct (fold (\<lambda>j s. removeAll (at f i j) s) js s))" for i js s
    by (rule fold_erase) (auto simp: distinct_removeAll)
  define rb where "rb = r - r mod 3"
  define cb where "cb = c - c mod 3"
  have fpv: "find_possible_values f (r, c) =
      fold (\<lambda>i s. fold (\<lambda>j s. removeAll (at f i j) s) [cb..cb + 2] s) [rb..rb + 2] s1"
    using rc
    by (simp add: find_possible_values_def Let_def s1_def FIELD_SIZE_def c_rem_nonneg rb_def cb_def
             del: upto.simps)
  have "set (find_possible_values f (r, c)) =
          set s1 - (\<Union>i\<in>set [rb..rb + 2]. \<Union>j\<in>set [cb..cb + 2]. {at f i j}) \<and>
        (distinct s1 \<longrightarrow> distinct (find_possible_values f (r, c)))"
    unfolding fpv by (rule fold_erase) (simp_all add: inner)
  then have outer: "set (find_possible_values f (r, c)) =
                 set s1 - (\<Union>i\<in>{rb..rb + 2}. \<Union>j\<in>{cb..cb + 2}. {at f i j})"
      "distinct (find_possible_values f (r, c))"
    using s1(2) by (simp_all only: set_upto simp_thms)
  then show "distinct (find_possible_values f (r, c))" by simp
  have blk: "i \<in> {rb..rb + 2} \<longleftrightarrow> i div 3 = r div 3" "j \<in> {cb..cb + 2} \<longleftrightarrow> j div 3 = c div 3"
    for i j
    unfolding rb_def cb_def using block_range rc by blast+
  have blkR: "{rb..rb + 2} = {i. i div 3 = r div 3}" using blk(1) by blast
  have blkC: "{cb..cb + 2} = {j. j div 3 = c div 3}" using blk(2) by blast
  have inblk: "0 \<le> i \<and> i \<le> 8" if "i div 3 = r div 3" for i
    using that rc by presburger
  have inblk': "0 \<le> j \<and> j \<le> 8" if "j div 3 = c div 3" for j
    using that rc by presburger
  show "set (find_possible_values f (r, c)) =
           {v. 1 \<le> v \<and> v \<le> 9 \<and> (\<forall>q\<in>cells. same_unit (r, c) q \<longrightarrow> at f (fst q) (snd q) \<noteq> v)}"
    (is "?L = ?R")
  proof (rule set_eqI)
    fix v
    have "v \<in> ?L \<longleftrightarrow> v \<in> {1..9} \<and> (\<forall>i\<in>{0..8}. at f r i \<noteq> v \<and> at f i c \<noteq> v) \<and>
            (\<forall>i j. i \<in> {i. i div 3 = r div 3} \<and> j \<in> {j. j div 3 = c div 3} \<longrightarrow> at f i j \<noteq> v)"
      unfolding outer(1) s1(1) blkR blkC by (rule erased_iff)
    also have "\<dots> \<longleftrightarrow> 1 \<le> v \<and> v \<le> 9 \<and> (\<forall>i\<in>{0..8}. at f r i \<noteq> v \<and> at f i c \<noteq> v) \<and>
            (\<forall>i j. i div 3 = r div 3 \<and> j div 3 = c div 3 \<longrightarrow> at f i j \<noteq> v)"
      by (simp only: atLeastAtMost_iff [of v 1 9] mem_Collect_eq conj_assoc)
    also have "\<dots> \<longleftrightarrow> v \<in> ?R"
    proof
      assume a: "1 \<le> v \<and> v \<le> 9 \<and> (\<forall>i\<in>{0..8}. at f r i \<noteq> v \<and> at f i c \<noteq> v) \<and>
            (\<forall>i j. i div 3 = r div 3 \<and> j div 3 = c div 3 \<longrightarrow> at f i j \<noteq> v)"
      from a have a1: "\<And>k. k \<in> {0..8} \<Longrightarrow> at f r k \<noteq> v"
        and a2: "\<And>k. k \<in> {0..8} \<Longrightarrow> at f k c \<noteq> v"
        and a3: "\<And>i j. i div 3 = r div 3 \<Longrightarrow> j div 3 = c div 3 \<Longrightarrow> at f i j \<noteq> v"
        by blast+
      have "at f (fst q) (snd q) \<noteq> v" if "q \<in> cells" "same_unit (r, c) q" for q
      proof -
        obtain i j where q: "q = (i, j)" by (cases q)
        have ij: "i \<in> {0..8}" "j \<in> {0..8}" using that(1) q by (auto simp: cells_def)
        have su: "r = i \<or> c = j \<or> (r div 3 = i div 3 \<and> c div 3 = j div 3)"
          using that(2) unfolding q same_unit_def fst_conv snd_conv .
        show ?thesis
          unfolding q fst_conv snd_conv
          using su a1 [OF ij(2)] a2 [OF ij(1)] a3 [of i j] by metis
      qed
      then show "v \<in> ?R" using a by blast
    next
      assume b: "v \<in> ?R"
      have "at f r i \<noteq> v \<and> at f i c \<noteq> v" if "i \<in> {0..8}" for i
      proof -
        have "(r, i) \<in> cells" "(i, c) \<in> cells" using that rc by (auto simp: cells_def)
        moreover have "same_unit (r, c) (r, i)" "same_unit (r, c) (i, c)"
          by (simp_all add: same_unit_def)
        ultimately show ?thesis using b by fastforce
      qed
      moreover have "at f i j \<noteq> v" if "i div 3 = r div 3 \<and> j div 3 = c div 3" for i j
      proof -
        from that have d: "i div 3 = r div 3" "j div 3 = c div 3" by blast+
        have "0 \<le> i \<and> i \<le> 8" "0 \<le> j \<and> j \<le> 8"
          using inblk [OF d(1)] inblk' [OF d(2)] by blast+
        then have "(i, j) \<in> cells" by (simp add: cells_def)
        moreover have "same_unit (r, c) (i, j)"
          unfolding same_unit_def fst_conv snd_conv using that by metis
        ultimately show ?thesis using b by fastforce
      qed
      ultimately show "1 \<le> v \<and> v \<le> 9 \<and> (\<forall>i\<in>{0..8}. at f r i \<noteq> v \<and> at f i c \<noteq> v) \<and>
            (\<forall>i j. i div 3 = r div 3 \<and> j div 3 = c div 3 \<longrightarrow> at f i j \<noteq> v)"
        using b by blast
    qed
    finally show "v \<in> ?L \<longleftrightarrow> v \<in> ?R" .
  qed
qed

subsection \<open>Units, cell by cell\<close>

lemma vals_cell: "vals g u = map (cell g) u"
  by (simp add: vals_def cell_def case_prod_beta)

lemma mem_row_cells: "p \<in> set (row_cells k) \<longleftrightarrow> fst p = k \<and> snd p \<in> {0..8}"
  unfolding row_cells_def set_map set_upto by (cases p) auto

lemma mem_col_cells: "p \<in> set (col_cells k) \<longleftrightarrow> snd p = k \<and> fst p \<in> {0..8}"
  unfolding col_cells_def set_map set_upto by (cases p) auto

lemma mem_block_cells:
  "p \<in> set (block_cells b) \<longleftrightarrow>
     3 * fst b \<le> fst p \<and> fst p \<le> 3 * fst b + 2 \<and> 3 * snd b \<le> snd p \<and> snd p \<le> 3 * snd b + 2"
  (is "?L \<longleftrightarrow> ?R")
proof
  assume ?L
  then show ?R
    unfolding block_cells_def set_map set_product set_upto by auto
next
  assume r: ?R
  have "(fst p - 3 * fst b, snd p - 3 * snd b) \<in> {0..2} \<times> {0..2}" using r by simp
  moreover have "p = (\<lambda>(i, j). (3 * fst b + i, 3 * snd b + j)) (fst p - 3 * fst b, snd p - 3 * snd b)"
    by (simp add: prod_eq_iff)
  ultimately show ?L
    unfolding block_cells_def set_map set_product set_upto by (rule image_eqI [rotated])
qed

lemma distinct_row_cells: "distinct (row_cells k)"
  unfolding row_cells_def by (simp only: distinct_map distinct_upto) (simp add: inj_on_def)

lemma distinct_col_cells: "distinct (col_cells k)"
  unfolding col_cells_def by (simp only: distinct_map distinct_upto) (simp add: inj_on_def)

lemma distinct_block_cells: "distinct (block_cells b)"
  unfolding block_cells_def
  by (simp only: distinct_map distinct_product distinct_upto) (auto simp: inj_on_def)

lemma set_unit_cells:
  "set unit_cells = row_cells ` {0..8} \<union> col_cells ` {0..8} \<union> block_cells ` ({0..2} \<times> {0..2})"
  unfolding unit_cells_def by (simp only: set_append set_map set_upto set_product Un_assoc)

lemma distinct_unit: "u \<in> set unit_cells \<Longrightarrow> distinct u"
  unfolding set_unit_cells
  using distinct_row_cells distinct_col_cells distinct_block_cells by blast

lemma unit_subset_cells:
  assumes "u \<in> set unit_cells" and "p \<in> set u"
  shows "p \<in> cells"
proof -
  from assms(1) consider k where "k \<in> {0..8}" "u = row_cells k"
    | k where "k \<in> {0..8}" "u = col_cells k"
    | b where "b \<in> {0..2} \<times> {0..2}" "u = block_cells b"
    unfolding set_unit_cells by blast
  then show ?thesis
  proof cases
    case 1
    then show ?thesis using assms(2) by (cases p) (simp add: mem_row_cells cells_def)
  next
    case 2
    then show ?thesis using assms(2) by (cases p) (simp add: mem_col_cells cells_def)
  next
    case 3
    obtain a b' where b: "b = (a, b')" by (cases b)
    have "0 \<le> a" "a \<le> 2" "0 \<le> b'" "b' \<le> 2" using 3(1) b by auto
    moreover have "3 * a \<le> fst p \<and> fst p \<le> 3 * a + 2 \<and> 3 * b' \<le> snd p \<and> snd p \<le> 3 * b' + 2"
      using assms(2) 3(2) b by (simp add: mem_block_cells)
    ultimately have "0 \<le> fst p \<and> fst p \<le> 8 \<and> 0 \<le> snd p \<and> snd p \<le> 8" by linarith
    then show ?thesis by (cases p) (simp add: cells_def)
  qed
qed

lemma div3_iff: "(3 * a \<le> r \<and> r \<le> 3 * a + 2) \<longleftrightarrow> r div 3 = (a::int)"
  by presburger

lemma same_unit_iff:
  assumes "p \<in> cells" and "q \<in> cells"
  shows "same_unit p q \<longleftrightarrow> (\<exists>u\<in>set unit_cells. p \<in> set u \<and> q \<in> set u)"
proof
  assume "same_unit p q"
  then consider "fst p = fst q" | "snd p = snd q"
    | "fst p div 3 = fst q div 3 \<and> snd p div 3 = snd q div 3"
    unfolding same_unit_def by blast
  then show "\<exists>u\<in>set unit_cells. p \<in> set u \<and> q \<in> set u"
  proof cases
    case 1
    have "fst p \<in> {0..8}" using assms(1) by (cases p) (simp add: cells_def)
    then have "row_cells (fst p) \<in> set unit_cells" unfolding set_unit_cells by blast
    moreover have "p \<in> set (row_cells (fst p))" "q \<in> set (row_cells (fst p))"
      using assms 1 by (cases p, cases q, simp add: mem_row_cells cells_def)+
    ultimately show ?thesis by blast
  next
    case 2
    have "snd p \<in> {0..8}" using assms(1) by (cases p) (simp add: cells_def)
    then have "col_cells (snd p) \<in> set unit_cells" unfolding set_unit_cells by blast
    moreover have "p \<in> set (col_cells (snd p))" "q \<in> set (col_cells (snd p))"
      using assms 2 by (cases p, cases q, simp add: mem_col_cells cells_def)+
    ultimately show ?thesis by blast
  next
    case 3
    let ?b = "(fst p div 3, snd p div 3)"
    have pb: "0 \<le> fst p" "fst p \<le> 8" "0 \<le> snd p" "snd p \<le> 8"
      using assms(1) by (cases p, simp add: cells_def)+
    have "0 \<le> fst p div 3" "fst p div 3 \<le> 2" "0 \<le> snd p div 3" "snd p div 3 \<le> 2"
      using pb by presburger+
    then have "?b \<in> {0..2} \<times> {0..2}" by simp
    then have "block_cells ?b \<in> set unit_cells" unfolding set_unit_cells by blast
    moreover have "p \<in> set (block_cells ?b)"
      unfolding mem_block_cells fst_conv snd_conv by presburger
    moreover have "q \<in> set (block_cells ?b)"
      unfolding mem_block_cells fst_conv snd_conv using 3 by presburger
    ultimately show ?thesis by blast
  qed
next
  assume "\<exists>u\<in>set unit_cells. p \<in> set u \<and> q \<in> set u"
  then obtain u where u: "u \<in> set unit_cells" "p \<in> set u" "q \<in> set u" by blast
  from u(1) consider k where "u = row_cells k" | k where "u = col_cells k"
    | b where "u = block_cells b"
    unfolding set_unit_cells by blast
  then show "same_unit p q"
  proof cases
    case 1
    then show ?thesis using u(2,3) by (simp add: mem_row_cells same_unit_def)
  next
    case 2
    then show ?thesis using u(2,3) by (simp add: mem_col_cells same_unit_def)
  next
    case 3
    have "3 * fst b \<le> fst p \<and> fst p \<le> 3 * fst b + 2" "3 * fst b \<le> fst q \<and> fst q \<le> 3 * fst b + 2"
      "3 * snd b \<le> snd p \<and> snd p \<le> 3 * snd b + 2" "3 * snd b \<le> snd q \<and> snd q \<le> 3 * snd b + 2"
      using u(2,3) unfolding 3 mem_block_cells by blast+
    then have "fst p div 3 = fst b" "fst q div 3 = fst b" "snd p div 3 = snd b" "snd q div 3 = snd b"
      unfolding div3_iff by blast+
    then show ?thesis unfolding same_unit_def by simp
  qed
qed

lemma distinct_map_pointwise:
  assumes "distinct u"
  shows "distinct (map h u) \<longleftrightarrow> (\<forall>p\<in>set u. \<forall>q\<in>set u. p \<noteq> q \<longrightarrow> h p \<noteq> h q)"
  using assms by (auto simp: distinct_map inj_on_def)

lemma distinct_filter_map_pointwise:
  assumes "distinct u"
  shows "distinct (filter (\<lambda>v. v \<noteq> z) (map h u)) \<longleftrightarrow>
         (\<forall>p\<in>set u. \<forall>q\<in>set u. p \<noteq> q \<and> h p \<noteq> z \<longrightarrow> h p \<noteq> h q)"
proof -
  have "distinct (filter (\<lambda>v. v \<noteq> z) (map h u)) \<longleftrightarrow> inj_on h {p \<in> set u. h p \<noteq> z}"
    using assms by (simp add: filter_map comp_def distinct_map)
  also have "\<dots> \<longleftrightarrow> (\<forall>p\<in>set u. \<forall>q\<in>set u. p \<noteq> q \<and> h p \<noteq> z \<longrightarrow> h p \<noteq> h q)"
  proof
    assume inj: "inj_on h {p \<in> set u. h p \<noteq> z}"
    show "\<forall>p\<in>set u. \<forall>q\<in>set u. p \<noteq> q \<and> h p \<noteq> z \<longrightarrow> h p \<noteq> h q"
    proof (intro ballI impI notI)
      fix p q
      assume pq: "p \<in> set u" "q \<in> set u" "p \<noteq> q \<and> h p \<noteq> z" "h p = h q"
      then have "p \<in> {p \<in> set u. h p \<noteq> z}" "q \<in> {p \<in> set u. h p \<noteq> z}" by simp_all
      from inj_onD [OF inj pq(4) this] pq(3) show False by simp
    qed
  next
    assume r: "\<forall>p\<in>set u. \<forall>q\<in>set u. p \<noteq> q \<and> h p \<noteq> z \<longrightarrow> h p \<noteq> h q"
    show "inj_on h {p \<in> set u. h p \<noteq> z}"
    proof (rule inj_onI, rule ccontr)
      fix x y
      assume xy: "x \<in> {p \<in> set u. h p \<noteq> z}" "y \<in> {p \<in> set u. h p \<noteq> z}" "h x = h y" "x \<noteq> y"
      then have "x \<in> set u" "y \<in> set u" "x \<noteq> y \<and> h x \<noteq> z" by simp_all
      with r have "h x \<noteq> h y" by blast
      with xy(3) show False by simp
    qed
  qed
  finally show ?thesis .
qed

text \<open>No duplicate in any unit, as a statement about pairs of cells.\<close>

lemma units_distinct_iff:
  "list_all (\<lambda>u. distinct (vals g u)) unit_cells \<longleftrightarrow>
     (\<forall>p\<in>cells. \<forall>q\<in>cells. p \<noteq> q \<and> same_unit p q \<longrightarrow> cell g p \<noteq> cell g q)"
  (is "?L \<longleftrightarrow> ?R")
proof
  assume l: ?L
  show ?R
  proof (intro ballI impI)
    fix p q assume pq: "p \<in> cells" "q \<in> cells" "p \<noteq> q \<and> same_unit p q"
    then obtain u where u: "u \<in> set unit_cells" "p \<in> set u" "q \<in> set u"
      using same_unit_iff by blast
    from l u(1) have "distinct (map (cell g) u)" by (simp add: list_all_iff vals_cell)
    with distinct_map_pointwise [OF distinct_unit [OF u(1)], of "cell g"] u(2,3) pq(3)
    show "cell g p \<noteq> cell g q" by blast
  qed
next
  assume r: ?R
  have "distinct (vals g u)" if u: "u \<in> set unit_cells" for u
  proof -
    have "cell g p \<noteq> cell g q" if "p \<in> set u" "q \<in> set u" "p \<noteq> q" for p q
    proof -
      have "p \<in> cells" "q \<in> cells" using unit_subset_cells u that by blast+
      moreover from this have "same_unit p q" using same_unit_iff u that by blast
      ultimately show ?thesis using r that(3) by blast
    qed
    then show ?thesis
      unfolding vals_cell distinct_map_pointwise [OF distinct_unit [OF u]] by blast
  qed
  then show ?L by (simp add: list_all_iff)
qed

lemma units_filter_distinct_iff:
  "list_all (\<lambda>u. distinct (filter (\<lambda>v. v \<noteq> 0) (vals g u))) unit_cells \<longleftrightarrow>
     (\<forall>p\<in>cells. \<forall>q\<in>cells. p \<noteq> q \<and> same_unit p q \<and> cell g p \<noteq> 0 \<longrightarrow> cell g p \<noteq> cell g q)"
  (is "?L \<longleftrightarrow> ?R")
proof
  assume l: ?L
  show ?R
  proof (intro ballI impI)
    fix p q assume pq: "p \<in> cells" "q \<in> cells" "p \<noteq> q \<and> same_unit p q \<and> cell g p \<noteq> 0"
    then obtain u where u: "u \<in> set unit_cells" "p \<in> set u" "q \<in> set u"
      using same_unit_iff by blast
    from l u(1) have "distinct (filter (\<lambda>v. v \<noteq> 0) (map (cell g) u))"
      by (simp add: list_all_iff vals_cell)
    with distinct_filter_map_pointwise [OF distinct_unit [OF u(1)], of 0 "cell g"] u(2,3) pq(3)
    show "cell g p \<noteq> cell g q" by blast
  qed
next
  assume r: ?R
  have "distinct (filter (\<lambda>v. v \<noteq> 0) (vals g u))" if u: "u \<in> set unit_cells" for u
  proof -
    have "cell g p \<noteq> cell g q" if "p \<in> set u" "q \<in> set u" "p \<noteq> q" "cell g p \<noteq> 0" for p q
    proof -
      have "p \<in> cells" "q \<in> cells" using unit_subset_cells u that by blast+
      moreover from this have "same_unit p q" using same_unit_iff u that by blast
      ultimately show ?thesis using r that(3,4) by blast
    qed
    then show ?thesis
      unfolding vals_cell distinct_filter_map_pointwise [OF distinct_unit [OF u]] by blast
  qed
  then show ?L by (simp add: list_all_iff)
qed

lemma valid_solution_iff:
  "valid_solution g \<longleftrightarrow>
     is_grid g \<and> (\<forall>p\<in>cells. 1 \<le> cell g p \<and> cell g p \<le> 9) \<and>
     (\<forall>p\<in>cells. \<forall>q\<in>cells. p \<noteq> q \<and> same_unit p q \<longrightarrow> cell g p \<noteq> cell g q)"
  unfolding valid_solution_def units_distinct_iff
  by (simp only: list_all_iff set_product_08 cell_def case_prod_unfold)

lemma consistent_iff:
  "consistent f \<longleftrightarrow>
     (\<forall>p\<in>cells. 0 \<le> cell f p \<and> cell f p \<le> 9) \<and>
     (\<forall>p\<in>cells. \<forall>q\<in>cells. p \<noteq> q \<and> same_unit p q \<and> cell f p \<noteq> 0 \<longrightarrow> cell f p \<noteq> cell f q)"
  unfolding consistent_def units_filter_distinct_iff
  by (simp only: list_all_iff set_product_08 cell_def case_prod_unfold)

lemma preserves_iff:
  "preserves f g \<longleftrightarrow> (\<forall>p\<in>cells. cell f p \<noteq> 0 \<longrightarrow> cell g p = cell f p)"
  unfolding preserves_def
  by (simp only: list_all_iff set_product_08 cell_def case_prod_unfold) blast

subsection \<open>Writing a candidate into the empty cell\<close>

lemma cell_set_at:
  assumes "is_grid f" and "(r, c) \<in> cells" and "q \<in> cells"
  shows "cell (set_at f r c v) q = (if q = (r, c) then v else cell f q)"
proof -
  obtain r' c' where q: "q = (r', c')" by (cases q)
  show ?thesis
    using at_set_at [OF assms(1,2), of r' c' v] assms(3)
    unfolding q cell_def fst_conv snd_conv by simp
qed

lemma count_empty_card: "count_empty f = card {p \<in> cells. cell f p = 0}"
proof -
  have "count_empty f = card ({p. cell f p = 0} \<inter> set (List.product [0..8] [0..8]))"
    unfolding count_empty_def cell_def case_prod_unfold
    by (rule distinct_length_filter [OF distinct_product_08])
  also have "{p. cell f p = 0} \<inter> set (List.product [0..8] [0..8]) = {p \<in> cells. cell f p = 0}"
    unfolding set_product_08 by blast
  finally show ?thesis .
qed

lemma count_empty_le: "count_empty f \<le> 81"
proof -
  have "count_empty f \<le> length (List.product [0..8] [0..8])"
    unfolding count_empty_def by (rule length_filter_le)
  also have "\<dots> = 81" by (simp only: length_product length_upto) simp
  finally show ?thesis .
qed

lemma count_empty_set_at:
  assumes "is_grid f" and "(r, c) \<in> cells" and "cell f (r, c) = 0" and "v \<noteq> 0"
  shows "count_empty (set_at f r c v) < count_empty f"
proof -
  let ?E = "{p \<in> cells. cell f p = 0}"
  have eq: "{p \<in> cells. cell (set_at f r c v) p = 0} = ?E - {(r, c)}"
    using assms(4) by (auto simp: cell_set_at [OF assms(1,2)] split: if_splits)
  have "(r, c) \<in> ?E" using assms(2,3) by simp
  moreover have "finite ?E" using finite_cells by simp
  ultimately have "card (?E - {(r, c)}) < card ?E"
    by (rule card_Diff1_less [rotated])
  then have "card {p \<in> cells. cell (set_at f r c v) p = 0} < card ?E"
    by (simp only: eq)
  then show ?thesis by (simp only: count_empty_card)
qed

lemma candidates_range:
  assumes "(r, c) \<in> cells" and "v \<in> set (find_possible_values f (r, c))"
  shows "1 \<le> v \<and> v \<le> 9"
  using assms(2) unfolding find_possible_values_set(1) [OF assms(1)] by simp

lemma candidates_iff:
  assumes "(r, c) \<in> cells"
  shows "v \<in> set (find_possible_values f (r, c)) \<longleftrightarrow>
         1 \<le> v \<and> v \<le> 9 \<and> (\<forall>q\<in>cells. same_unit (r, c) q \<longrightarrow> cell f q \<noteq> v)"
  unfolding find_possible_values_set(1) [OF assms] cell_def by simp

subsection \<open>The loop over the candidates\<close>

lemma fold_candidates:
  assumes "\<And>v. v \<in> set vs \<Longrightarrow> solve (set_at f r c v) = Some (n v)"
    and "\<And>v. set_at g r c v = set_at f r c v"
  shows "\<exists>g'. fold (loop_body solve r c) vs (Some (g, s)) = Some (g', s + sum_list (map n vs))"
  using assms
proof (induction vs arbitrary: g s)
  case Nil
  then show ?case by simp
next
  case (Cons v vs)
  have v: "solve (set_at g r c v) = Some (n v)"
    using Cons.prems by simp
  have over: "\<And>w. set_at (set_at g r c v) r c w = set_at f r c w"
    using Cons.prems(2) by (simp only: set_at_overwrite)
  have rest: "\<And>w. w \<in> set vs \<Longrightarrow> solve (set_at f r c w) = Some (n w)"
    using Cons.prems(1) by simp
  have "loop_body solve r c v (Some (g, s)) = Some (set_at g r c v, s + n v)"
    by (simp add: loop_body_def v)
  with Cons.IH [OF rest over, of "s + n v"] show ?case
    by (simp add: add.assoc)
qed

lemma solve_recursively_step:
  assumes "\<not> is_complete f"
    and "\<And>v. v \<in> set (find_possible_values f (find_empty_position f)) \<Longrightarrow>
           solve_recursively fuel
             (set_at f (fst (find_empty_position f)) (snd (find_empty_position f)) v) = Some (n v)"
  shows "solve_recursively (Suc fuel) f =
           Some (sum_list (map n (find_possible_values f (find_empty_position f))))"
proof -
  from fold_candidates [of "find_possible_values f (find_empty_position f)"
      "solve_recursively fuel" f
      "fst (find_empty_position f)" "snd (find_empty_position f)" n f 0, OF assms(2)]
  obtain g' where "fold (loop_body (solve_recursively fuel) (fst (find_empty_position f))
                     (snd (find_empty_position f)))
              (find_possible_values f (find_empty_position f)) (Some (f, 0))
            = Some (g', 0 + sum_list (map n (find_possible_values f (find_empty_position f))))"
    by blast
  then show ?thesis using assms(1) by (simp add: Let_def)
qed

subsection \<open>Termination\<close>

lemma solve_recursively_returns:
  "is_grid f \<Longrightarrow> count_empty f < fuel \<Longrightarrow> \<exists>n. solve_recursively fuel f = Some n"
proof (induction fuel arbitrary: f)
  case 0
  then show ?case by simp
next
  case (Suc fuel)
  show ?case
  proof (cases "is_complete f")
    case True
    then show ?thesis by simp
  next
    case False
    obtain r c where p: "find_empty_position f = (r, c)" by (cases "find_empty_position f")
    from find_empty_position_empty [OF False] have rc: "(r, c) \<in> cells" "cell f (r, c) = 0"
      unfolding p cell_def by simp_all
    have "\<exists>n. solve_recursively fuel (set_at f r c v) = Some n"
      if "v \<in> set (find_possible_values f (r, c))" for v
    proof -
      have "v \<noteq> 0" using candidates_range [OF rc(1) that] by simp
      from count_empty_set_at [OF Suc.prems(1) rc this] Suc.prems(2)
      have "count_empty (set_at f r c v) < fuel" by simp
      with Suc.IH [OF is_grid_set_at [OF Suc.prems(1)]] show ?thesis by blast
    qed
    then have "\<And>v. v \<in> set (find_possible_values f (find_empty_position f)) \<Longrightarrow>
           solve_recursively fuel
             (set_at f (fst (find_empty_position f)) (snd (find_empty_position f)) v)
           = Some (the (solve_recursively fuel (set_at f r c v)))"
      unfolding p fst_conv snd_conv by fastforce
    from solve_recursively_step [OF False this] show ?thesis by blast
  qed
qed

subsection \<open>The completions of a grid\<close>

lemma completions_iff:
  "g \<in> completions f \<longleftrightarrow>
     is_grid g \<and> (\<forall>p\<in>cells. 1 \<le> cell g p \<and> cell g p \<le> 9) \<and>
     (\<forall>p\<in>cells. \<forall>q\<in>cells. p \<noteq> q \<and> same_unit p q \<longrightarrow> cell g p \<noteq> cell g q) \<and>
     (\<forall>p\<in>cells. cell f p \<noteq> 0 \<longrightarrow> cell g p = cell f p)"
  unfolding completions_def mem_Collect_eq valid_solution_iff preserves_iff by blast

lemma finite_completions: "finite (completions f)"
proof -
  let ?rows = "{row :: int list. set row \<subseteq> {1..9} \<and> length row = 9}"
  let ?grids = "{g :: field. set g \<subseteq> ?rows \<and> length g = 9}"
  have "finite ?rows" by (rule finite_lists_length_eq) simp
  then have "finite ?grids" by (rule finite_lists_length_eq)
  moreover have "completions f \<subseteq> ?grids"
  proof
    fix g assume "g \<in> completions f"
    then have g: "is_grid g" "\<And>p. p \<in> cells \<Longrightarrow> 1 \<le> cell g p \<and> cell g p \<le> 9"
      unfolding completions_iff by blast+
    have "row \<in> ?rows" if "row \<in> set g" for row
    proof -
      from that obtain i where i: "i < length g" "row = g ! i"
        by (auto simp: in_set_conv_nth)
      then have i9: "i < 9" and len: "length row = 9"
        using g(1) by (simp_all add: is_grid_iff)
      have "x \<in> {1..9}" if "x \<in> set row" for x
      proof -
        from that obtain j where j: "j < length row" "x = row ! j"
          by (auto simp: in_set_conv_nth)
        have "(int i, int j) \<in> cells" using i9 j(1) len by (simp add: cells_def)
        from g(2) [OF this] show ?thesis
          unfolding cell_def at_def fst_conv snd_conv using i(2) j(2) by simp
      qed
      then show ?thesis using len by blast
    qed
    moreover have "length g = 9" using g(1) by (simp add: is_grid_iff)
    ultimately show "g \<in> ?grids" by blast
  qed
  ultimately show ?thesis by (rule finite_subset [rotated])
qed

lemma is_complete_cell: "is_complete f \<longleftrightarrow> (\<forall>p\<in>cells. cell f p \<noteq> 0)"
  unfolding is_complete_iff cell_def case_prod_unfold ..

lemma completions_complete:
  assumes "is_grid f" and "consistent f" and "is_complete f"
  shows "completions f = {f}"
proof (rule equalityI; rule subsetI)
  fix g assume "g \<in> completions f"
  then have g: "is_grid g" "\<And>p. p \<in> cells \<Longrightarrow> cell f p \<noteq> 0 \<Longrightarrow> cell g p = cell f p"
    unfolding completions_iff by blast+
  have nz: "\<And>p. p \<in> cells \<Longrightarrow> cell f p \<noteq> 0"
    using assms(3) unfolding is_complete_cell by blast
  have "g = f"
  proof (rule grid_ext [OF g(1) assms(1)])
    fix r c assume "(r, c) \<in> cells"
    from g(2) [OF this nz [OF this]] show "at g r c = at f r c"
      unfolding cell_def by simp
  qed
  then show "g \<in> {f}" by simp
next
  fix g assume "g \<in> {f}"
  then have gf: "g = f" by simp
  have nz: "\<And>p. p \<in> cells \<Longrightarrow> cell f p \<noteq> 0"
    using assms(3) unfolding is_complete_cell by blast
  from assms(2) have c: "\<And>p. p \<in> cells \<Longrightarrow> 0 \<le> cell f p \<and> cell f p \<le> 9"
    "\<And>p q. p \<in> cells \<Longrightarrow> q \<in> cells \<Longrightarrow> p \<noteq> q \<and> same_unit p q \<and> cell f p \<noteq> 0
       \<Longrightarrow> cell f p \<noteq> cell f q"
    unfolding consistent_iff by blast+
  have "1 \<le> cell f p \<and> cell f p \<le> 9" if "p \<in> cells" for p
    using c(1) [OF that] nz [OF that] by linarith
  moreover have "cell f p \<noteq> cell f q" if "p \<in> cells" "q \<in> cells" "p \<noteq> q \<and> same_unit p q" for p q
    using c(2) [OF that(1,2)] that(3) nz [OF that(1)] by blast
  ultimately show "g \<in> completions f"
    unfolding gf completions_iff using assms(1) by blast
qed

lemma consistent_set_at:
  assumes "is_grid f" and "consistent f" and "(r, c) \<in> cells" and "cell f (r, c) = 0"
    and "v \<in> set (find_possible_values f (r, c))"
  shows "consistent (set_at f r c v)"
proof -
  let ?f' = "set_at f r c v"
  note cs = cell_set_at [OF assms(1,3)]
  from assms(2) have c: "\<And>p. p \<in> cells \<Longrightarrow> 0 \<le> cell f p \<and> cell f p \<le> 9"
    "\<And>p q. p \<in> cells \<Longrightarrow> q \<in> cells \<Longrightarrow> p \<noteq> q \<and> same_unit p q \<and> cell f p \<noteq> 0
       \<Longrightarrow> cell f p \<noteq> cell f q"
    unfolding consistent_iff by blast+
  from assms(5) have v: "1 \<le> v" "v \<le> 9"
    "\<And>q. q \<in> cells \<Longrightarrow> same_unit (r, c) q \<Longrightarrow> cell f q \<noteq> v"
    unfolding candidates_iff [OF assms(3)] by blast+
  have sym: "same_unit p q \<Longrightarrow> same_unit q p" for p q
    unfolding same_unit_def by metis
  have range: "0 \<le> cell ?f' p \<and> cell ?f' p \<le> 9" if "p \<in> cells" for p
    using c(1) [OF that] v(1,2) by (simp add: cs [OF that])
  have nodup: "cell ?f' p \<noteq> cell ?f' q"
    if pq: "p \<in> cells" "q \<in> cells" "p \<noteq> q \<and> same_unit p q \<and> cell ?f' p \<noteq> 0" for p q
  proof (cases "p = (r, c)")
    case True
    then have "q \<noteq> (r, c)" "same_unit (r, c) q" using pq(3) by auto
    then show ?thesis
      using v(3) [OF pq(2)] True by (simp add: cs [OF assms(3)] cs [OF pq(2)])
  next
    case False
    show ?thesis
    proof (cases "q = (r, c)")
      case True
      have "same_unit (r, c) p" using pq(3) True sym by blast
      from v(3) [OF pq(1) this] show ?thesis
        using True False by (simp add: cs [OF pq(1)] cs [OF assms(3)])
    next
      case qn: False
      have "cell f p \<noteq> 0" using pq(3) False by (simp add: cs [OF pq(1)])
      with c(2) [OF pq(1,2)] pq(3) have "cell f p \<noteq> cell f q" by blast
      then show ?thesis using False qn by (simp add: cs [OF pq(1)] cs [OF pq(2)])
    qed
  qed
  show ?thesis unfolding consistent_iff using range nodup by blast
qed

lemma completions_split:
  assumes "is_grid f" and "(r, c) \<in> cells" and "cell f (r, c) = 0"
  shows "completions f = (\<Union>v\<in>set (find_possible_values f (r, c)). completions (set_at f r c v))"
proof (rule equalityI; rule subsetI)
  note cs = cell_set_at [OF assms(1,2)]
  fix g assume "g \<in> completions f"
  then have g: "is_grid g" "\<And>p. p \<in> cells \<Longrightarrow> 1 \<le> cell g p \<and> cell g p \<le> 9"
    "\<And>p q. p \<in> cells \<Longrightarrow> q \<in> cells \<Longrightarrow> p \<noteq> q \<and> same_unit p q \<Longrightarrow> cell g p \<noteq> cell g q"
    "\<And>p. p \<in> cells \<Longrightarrow> cell f p \<noteq> 0 \<Longrightarrow> cell g p = cell f p"
    unfolding completions_iff by blast+
  let ?v = "cell g (r, c)"
  have "cell f q \<noteq> ?v" if q: "q \<in> cells" "same_unit (r, c) q" for q
  proof (cases "cell f q = 0")
    case True
    then show ?thesis using g(2) [OF assms(2)] by simp
  next
    case False
    then have ne: "q \<noteq> (r, c)" using assms(3) by auto
    from g(3) [OF assms(2) q(1)] ne q(2) have "cell g (r, c) \<noteq> cell g q" by blast
    then show ?thesis using g(4) [OF q(1) False] by simp
  qed
  then have v: "?v \<in> set (find_possible_values f (r, c))"
    unfolding candidates_iff [OF assms(2)] using g(2) [OF assms(2)] by blast
  have "cell g p = cell (set_at f r c ?v) p" if "p \<in> cells" "cell (set_at f r c ?v) p \<noteq> 0" for p
    using that g(4) [OF that(1)] by (simp add: cs [OF that(1)] split: if_splits)
  then have "g \<in> completions (set_at f r c ?v)"
    unfolding completions_iff using g(1,2,3) by blast
  with v show "g \<in> (\<Union>v\<in>set (find_possible_values f (r, c)). completions (set_at f r c v))"
    by blast
next
  note cs = cell_set_at [OF assms(1,2)]
  fix g assume "g \<in> (\<Union>v\<in>set (find_possible_values f (r, c)). completions (set_at f r c v))"
  then obtain v where v: "v \<in> set (find_possible_values f (r, c))"
    and gv: "g \<in> completions (set_at f r c v)" by blast
  from gv have g: "is_grid g" "\<And>p. p \<in> cells \<Longrightarrow> 1 \<le> cell g p \<and> cell g p \<le> 9"
    "\<And>p q. p \<in> cells \<Longrightarrow> q \<in> cells \<Longrightarrow> p \<noteq> q \<and> same_unit p q \<Longrightarrow> cell g p \<noteq> cell g q"
    "\<And>p. p \<in> cells \<Longrightarrow> cell (set_at f r c v) p \<noteq> 0 \<Longrightarrow> cell g p = cell (set_at f r c v) p"
    unfolding completions_iff by blast+
  have "cell g p = cell f p" if "p \<in> cells" "cell f p \<noteq> 0" for p
  proof -
    have "p \<noteq> (r, c)" using that(2) assms(3) by auto
    then have "cell (set_at f r c v) p = cell f p" by (simp add: cs [OF that(1)])
    with g(4) [OF that(1)] that(2) show ?thesis by simp
  qed
  then show "g \<in> completions f"
    unfolding completions_iff using g(1,2,3) by blast
qed

lemma completions_disjoint:
  assumes "is_grid f" and "(r, c) \<in> cells" and "v \<noteq> 0" and "w \<noteq> 0" and "v \<noteq> w"
  shows "completions (set_at f r c v) \<inter> completions (set_at f r c w) = {}"
proof (rule ccontr)
  assume "completions (set_at f r c v) \<inter> completions (set_at f r c w) \<noteq> {}"
  then obtain g where g: "g \<in> completions (set_at f r c v)" "g \<in> completions (set_at f r c w)"
    by blast
  note cs = cell_set_at [OF assms(1,2) assms(2)]
  from g(1) assms(2,3) have "cell g (r, c) = v" unfolding completions_iff by (simp add: cs)
  moreover from g(2) assms(2,4) have "cell g (r, c) = w" unfolding completions_iff by (simp add: cs)
  ultimately show False using assms(5) by simp
qed

lemma of_nat_sum_list: "sum_list (map (\<lambda>v. of_nat (h v)) vs) = (of_nat (sum_list (map h vs)) :: size_t)"
  by (induction vs) simp_all

subsection \<open>The count\<close>

lemma solve_recursively_counts:
  "is_grid f \<Longrightarrow> consistent f \<Longrightarrow> count_empty f < fuel \<Longrightarrow>
   solve_recursively fuel f = Some (of_nat (card (completions f)))"
proof (induction fuel arbitrary: f)
  case 0
  then show ?case by simp
next
  case (Suc fuel)
  show ?case
  proof (cases "is_complete f")
    case True
    then show ?thesis
      by (simp add: completions_complete [OF Suc.prems(1,2) True])
  next
    case False
    obtain r c where p: "find_empty_position f = (r, c)" by (cases "find_empty_position f")
    from find_empty_position_empty [OF False] have rc: "(r, c) \<in> cells" "cell f (r, c) = 0"
      unfolding p cell_def by simp_all
    let ?vs = "find_possible_values f (r, c)"
    let ?n = "\<lambda>v. card (completions (set_at f r c v))"
    have ih: "solve_recursively fuel (set_at f r c v) = Some (of_nat (?n v))"
      if "v \<in> set ?vs" for v
    proof -
      have "v \<noteq> 0" using candidates_range [OF rc(1) that] by simp
      from count_empty_set_at [OF Suc.prems(1) rc this] Suc.prems(3)
      have "count_empty (set_at f r c v) < fuel" by simp
      with Suc.IH [OF is_grid_set_at [OF Suc.prems(1)]
          consistent_set_at [OF Suc.prems(1,2) rc that]]
      show ?thesis by blast
    qed
    then have "\<And>v. v \<in> set (find_possible_values f (find_empty_position f)) \<Longrightarrow>
           solve_recursively fuel
             (set_at f (fst (find_empty_position f)) (snd (find_empty_position f)) v)
           = Some (of_nat (?n v))"
      unfolding p fst_conv snd_conv by blast
    from solve_recursively_step [OF False this]
    have "solve_recursively (Suc fuel) f = Some (of_nat (sum_list (map ?n ?vs)))"
      unfolding p by (simp only: of_nat_sum_list)
    also have "sum_list (map ?n ?vs) = sum ?n (set ?vs)"
      by (rule sum_list_distinct_conv_sum_set [OF find_possible_values_set(2) [OF rc(1)]])
    also have "\<dots> = card (\<Union>v\<in>set ?vs. completions (set_at f r c v))"
    proof (rule card_UN_disjoint [symmetric])
      show "finite (set ?vs)" by simp
      show "\<forall>v\<in>set ?vs. finite (completions (set_at f r c v))"
        using finite_completions by blast
      show "\<forall>v\<in>set ?vs. \<forall>w\<in>set ?vs. v \<noteq> w \<longrightarrow>
              completions (set_at f r c v) \<inter> completions (set_at f r c w) = {}"
      proof (intro ballI impI)
        fix v w assume vw: "v \<in> set ?vs" "w \<in> set ?vs" "v \<noteq> w"
        have "v \<noteq> 0" "w \<noteq> 0"
          using candidates_range [OF rc(1) vw(1)] candidates_range [OF rc(1) vw(2)] by simp_all
        from completions_disjoint [OF Suc.prems(1) rc(1) this vw(3)]
        show "completions (set_at f r c v) \<inter> completions (set_at f r c w) = {}" .
      qed
    qed
    also have "\<dots> = card (completions f)"
      by (simp only: completions_split [OF Suc.prems(1) rc])
    finally show ?thesis .
  qed
qed

lemma find_empty_position_first:
  assumes "\<not> is_complete f"
  shows "\<exists>i<length scan_order. scan_order ! i = find_empty_position f \<and>
           (\<forall>j<i. cell f (scan_order ! j) \<noteq> 0)"
proof -
  from assms obtain p where p: "find (\<lambda>(row, col). at f row col = 0) scan_order = Some p"
    by (auto simp: is_complete_def)
  then obtain i where i: "i < length scan_order" "p = scan_order ! i"
    and before: "\<forall>j<i. \<not> (case scan_order ! j of (row, col) \<Rightarrow> at f row col = 0)"
    unfolding find_Some_iff by blast
  from before have "\<forall>j<i. cell f (scan_order ! j) \<noteq> 0"
    by (simp add: cell_def case_prod_unfold)
  moreover have "scan_order ! i = find_empty_position f"
    using p i(2) by (simp add: find_empty_position_def)
  ultimately show ?thesis using i(1) by blast
qed

subsection \<open>The claims about the solver and the checker\<close>

text \<open>
  Claim C8. \<open>check_field\<close> should return true exactly for the valid solutions that
  preserve the prefilled values, and false whenever a row, column or block holds a
  value twice. It accepts the checkerboard of 1s and 2s for the empty original:
  \<open>is_unique\<close> only compares neighbours. It accepts the pair of 9s in the top right
  block, which no loop visits, and rejects the same pair in the top left block.
\<close>

theorem check_field_accepts_duplicates:
  "check_field zero_field checkerboard \<and>
   \<not> distinct (checkerboard ! 0) \<and>
   \<not> valid_solution checkerboard \<and>
   check_field zero_field nines_right \<and>
   \<not> distinct (vals nines_right (block_cells (0, 2))) \<and>
   \<not> check_field zero_field nines_left"
  by code_simp

text \<open>
  Claim C9, as stated, fails on a full grid of 1s: \<open>sudoku_solve\<close> returns the count 1
  (with the grid itself) and the grid has no valid completion.
\<close>

theorem sudoku_solve_counts_invalid_full_grid:
  "sudoku_solve 82 ones_field = Inr (1, ones_field) \<and> card (completions ones_field) = 0"
proof -
  have "is_complete ones_field" by code_simp
  then have s: "sudoku_solve 82 ones_field = Inr (1, ones_field)"
    by (simp add: sudoku_solve_def)
  have "g \<notin> completions ones_field" for g
  proof
    assume "g \<in> completions ones_field"
    then have g: "\<And>p q. p \<in> cells \<Longrightarrow> q \<in> cells \<Longrightarrow> p \<noteq> q \<and> same_unit p q
                    \<Longrightarrow> cell g p \<noteq> cell g q"
      "\<And>p. p \<in> cells \<Longrightarrow> cell ones_field p \<noteq> 0 \<Longrightarrow> cell g p = cell ones_field p"
      unfolding completions_iff by blast+
    have c: "(0, 0) \<in> cells" "(0, 1) \<in> cells" by (simp_all add: cells_def)
    have o: "cell ones_field (0, 0) = 1" "cell ones_field (0, 1) = 1"
      by (simp_all add: cell_def at_def ones_field_def)
    have "cell g (0, 0) = 1" "cell g (0, 1) = 1"
      using g(2) [OF c(1)] g(2) [OF c(2)] o by simp_all
    moreover have "(0, 0) \<noteq> (0, 1 :: int) \<and> same_unit (0, 0) (0, 1)"
      by (simp add: same_unit_def)
    ultimately show False using g(1) [OF c] by simp
  qed
  then have "completions ones_field = {}" by blast
  with s show ?thesis by simp
qed

text \<open>
  Claim C9, amended. For a \<open>9 \<times> 9\<close> grid whose cells lie in \<open>0..9\<close> and whose nonzero
  values do not repeat in any row, column or block, \<open>solve_recursively\<close>, the call
  from which \<open>sudoku_solve\<close> takes its count, returns the number of valid completions,
  reduced modulo \<open>2 ^ 64\<close> as \<open>size_t\<close> arithmetic does; a recursion depth above the
  number of empty cells is enough. At the empty cell it picks, the candidates are the
  values of \<open>1..9\<close> absent from the cell's row, column and block. When such a grid is
  full, \<open>sudoku_solve\<close> returns the count 1 and the grid, which is its one completion.
  What \<open>sudoku_solve\<close> returns for a grid with an empty cell is not part of the
  statement.
\<close>

theorem solve_recursively_counts_completions:
  assumes "is_grid field" and "consistent field" and "count_empty field < fuel"
  shows "(\<exists>n. solve_recursively fuel field = Some n \<and>
              unat n = card (completions field) mod 2 ^ 64) \<and>
         (\<not> is_complete field \<longrightarrow>
            set (find_possible_values field (find_empty_position field)) =
              {v. 1 \<le> v \<and> v \<le> 9 \<and>
                  (\<forall>q\<in>cells. same_unit (find_empty_position field) q \<longrightarrow> cell field q \<noteq> v)}) \<and>
         (is_complete field \<longrightarrow>
            sudoku_solve fuel field = Inr (1, field) \<and> completions field = {field})"
proof (intro conjI impI)
  have "unat (of_nat (card (completions field)) :: size_t)
          = card (completions field) mod 2 ^ 64"
    by (simp only: unat_of_nat) simp
  with solve_recursively_counts [OF assms]
  show "\<exists>n. solve_recursively fuel field = Some n \<and>
            unat n = card (completions field) mod 2 ^ 64"
    by blast
next
  assume nc: "\<not> is_complete field"
  obtain r c where p: "find_empty_position field = (r, c)"
    by (cases "find_empty_position field")
  from find_empty_position_empty [OF nc] have "(r, c) \<in> cells" unfolding p by simp
  from find_possible_values_set(1) [OF this]
  show "set (find_possible_values field (find_empty_position field)) =
              {v. 1 \<le> v \<and> v \<le> 9 \<and>
                  (\<forall>q\<in>cells. same_unit (find_empty_position field) q \<longrightarrow> cell field q \<noteq> v)}"
    unfolding p cell_def .
next
  assume "is_complete field"
  then show "sudoku_solve fuel field = Inr (1, field)" by (simp add: sudoku_solve_def)
next
  assume "is_complete field"
  then show "completions field = {field}" by (rule completions_complete [OF assms(1,2)])
qed

theorem solve_recursively_counts_completions_witness:
  "is_grid two_solutions \<and> consistent two_solutions \<and> count_empty two_solutions < 82 \<and>
   \<not> is_complete two_solutions \<and>
   solve_recursively 82 two_solutions = Some 2 \<and>
   card (completions two_solutions) mod 2 ^ 64 = 2 \<and>
   set (find_possible_values two_solutions (0, 0)) = {1, 2} \<and>
   is_grid solved \<and> consistent solved \<and> count_empty solved < 82 \<and> is_complete solved \<and>
   sudoku_solve 82 solved = Inr (1, solved) \<and> completions solved = {solved}"
proof -
  have g: "is_grid two_solutions" by code_simp
  have c: "consistent two_solutions" by code_simp
  have e: "count_empty two_solutions < 82" by code_simp
  have nc: "\<not> is_complete two_solutions" by code_simp
  have s: "solve_recursively 82 two_solutions = Some 2" by code_simp
  have vs: "find_possible_values two_solutions (0, 0) = [1, 2]" by code_simp
  note t = solve_recursively_counts_completions [OF g c e]
  from t obtain n where
    n: "solve_recursively 82 two_solutions = Some n"
       "unat n = card (completions two_solutions) mod 2 ^ 64"
    by blast
  from n(1) s have "n = 2" by simp
  with n(2) have m: "card (completions two_solutions) mod 2 ^ 64 = 2" by simp
  have cand: "set (find_possible_values two_solutions (0, 0)) = {1, 2}"
    by (simp add: vs)
  have g': "is_grid solved" by code_simp
  have c': "consistent solved" by code_simp
  have e': "count_empty solved < 82" by code_simp
  have f': "is_complete solved" by code_simp
  note t' = solve_recursively_counts_completions [OF g' c' e']
  from t' f' have full: "sudoku_solve 82 solved = Inr (1, solved)" "completions solved = {solved}"
    by blast+
  from g c e nc s m cand g' c' e' f' full show ?thesis by (intro conjI)
qed

text \<open>
  Claim C10. \<open>solve_recursively\<close> terminates on every \<open>9 \<times> 9\<close> grid: a grid has at
  most 81 empty cells, any depth bound above their number lets the call return, the
  cell picked is the first empty one in scan order, and each candidate written there
  is in \<open>1..9\<close> and leaves fewer empty cells.
\<close>

theorem solve_recursively_terminates:
  assumes "is_grid field"
  shows "count_empty field \<le> 81 \<and>
         (\<forall>fuel. count_empty field < fuel \<longrightarrow> (\<exists>n. solve_recursively fuel field = Some n)) \<and>
         (\<not> is_complete field \<longrightarrow>
            (\<exists>i<length scan_order. scan_order ! i = find_empty_position field \<and>
               (\<forall>j<i. cell field (scan_order ! j) \<noteq> 0)) \<and>
            cell field (find_empty_position field) = 0 \<and>
            (\<forall>value\<in>set (find_possible_values field (find_empty_position field)).
               1 \<le> value \<and> value \<le> 9 \<and>
               count_empty (set_at field (fst (find_empty_position field))
                              (snd (find_empty_position field)) value) < count_empty field))"
proof (intro conjI allI impI)
  show "count_empty field \<le> 81" by (rule count_empty_le)
next
  fix fuel assume "count_empty field < fuel"
  with assms show "\<exists>n. solve_recursively fuel field = Some n"
    by (rule solve_recursively_returns)
next
  assume "\<not> is_complete field"
  then show "\<exists>i<length scan_order. scan_order ! i = find_empty_position field \<and>
               (\<forall>j<i. cell field (scan_order ! j) \<noteq> 0)"
    by (rule find_empty_position_first)
next
  assume "\<not> is_complete field"
  from find_empty_position_empty [OF this]
  show "cell field (find_empty_position field) = 0" unfolding cell_def by simp
next
  assume nc: "\<not> is_complete field"
  obtain r c where p: "find_empty_position field = (r, c)"
    by (cases "find_empty_position field")
  from find_empty_position_empty [OF nc] have rc: "(r, c) \<in> cells" "cell field (r, c) = 0"
    unfolding p cell_def by simp_all
  show "\<forall>value\<in>set (find_possible_values field (find_empty_position field)).
               1 \<le> value \<and> value \<le> 9 \<and>
               count_empty (set_at field (fst (find_empty_position field))
                              (snd (find_empty_position field)) value) < count_empty field"
    unfolding p fst_conv snd_conv
  proof
    fix v assume v: "v \<in> set (find_possible_values field (r, c))"
    from candidates_range [OF rc(1) v] have range: "1 \<le> v \<and> v \<le> 9" .
    then have "v \<noteq> 0" by simp
    from count_empty_set_at [OF assms rc this] range
    show "1 \<le> v \<and> v \<le> 9 \<and> count_empty (set_at field r c v) < count_empty field" by simp
  qed
qed

theorem solve_recursively_terminates_witness:
  "is_grid two_solutions \<and> count_empty two_solutions = 18 \<and> \<not> is_complete two_solutions \<and>
   (\<exists>n. solve_recursively 19 two_solutions = Some n) \<and>
   find_empty_position two_solutions = (0, 0) \<and> cell two_solutions (0, 0) = 0 \<and>
   find_possible_values two_solutions (0, 0) = [1, 2] \<and>
   count_empty (set_at two_solutions 0 0 1) < 18"
proof -
  have g: "is_grid two_solutions" by code_simp
  have e: "count_empty two_solutions = 18" by code_simp
  have nc: "\<not> is_complete two_solutions" by code_simp
  have p: "find_empty_position two_solutions = (0, 0)" by code_simp
  have vs: "find_possible_values two_solutions (0, 0) = [1, 2]" by code_simp
  note t = solve_recursively_terminates [OF g]
  from t e have "\<exists>n. solve_recursively 19 two_solutions = Some n" by simp
  moreover from t nc have "cell two_solutions (find_empty_position two_solutions) = 0" by blast
  then have "cell two_solutions (0, 0) = 0" by (simp only: p)
  moreover from t nc have
    "\<forall>value\<in>set (find_possible_values two_solutions (find_empty_position two_solutions)).
       1 \<le> value \<and> value \<le> 9 \<and>
       count_empty (set_at two_solutions (fst (find_empty_position two_solutions))
                      (snd (find_empty_position two_solutions)) value)
         < count_empty two_solutions"
    by blast
  then have "count_empty (set_at two_solutions 0 0 1) < 18"
    unfolding p vs e fst_conv snd_conv by simp
  ultimately show ?thesis using g e nc p vs by (intro conjI)
qed

end
